theory Spec2Isabelle
  imports Complex_Main "HOL-Library.AList" "HOL-Library.Sublist"
begin

section \<open>Characters and strings\<close>

text \<open>
  JavaScript strings are sequences of UTF-16 code units. The model uses HOL strings and
  reads a \<^typ>\<open>char\<close> as the code unit with the same number, so it covers the strings
  whose code units are below 256. The character classes are those of the regular
  expressions in the engine: \<open>[A-Za-z]\<close>, \<open>[0-9]\<close>, \<open>\w\<close> and \<open>\s\<close>.
\<close>

definition is_upper :: "char \<Rightarrow> bool" where
  "is_upper ch = (65 \<le> (of_char ch :: nat) \<and> (of_char ch :: nat) \<le> 90)"

definition is_lower :: "char \<Rightarrow> bool" where
  "is_lower ch = (97 \<le> (of_char ch :: nat) \<and> (of_char ch :: nat) \<le> 122)"

definition is_alpha :: "char \<Rightarrow> bool" where
  "is_alpha ch = (is_upper ch \<or> is_lower ch)"

definition is_digit :: "char \<Rightarrow> bool" where
  "is_digit ch = (48 \<le> (of_char ch :: nat) \<and> (of_char ch :: nat) \<le> 57)"

definition is_word :: "char \<Rightarrow> bool" where
  "is_word ch = (is_alpha ch \<or> is_digit ch \<or> ch = CHR ''_'')"

definition is_space :: "char \<Rightarrow> bool" where
  "is_space ch = ((of_char ch :: nat) \<in> {9, 10, 11, 12, 13, 32, 160})"

text \<open>\<open>toUpperCase\<close>, as far as the engine uses it: on strings of ASCII letters.\<close>

definition to_upper :: "char \<Rightarrow> char" where
  "to_upper ch = (if is_lower ch then char_of ((of_char ch :: nat) - 32) else ch)"

text \<open>\<open>String.prototype.trim\<close>.\<close>

definition trim :: "string \<Rightarrow> string" where
  "trim s = rev (dropWhile is_space (rev (dropWhile is_space s)))"

subsection \<open>Integers as decimal strings\<close>

text \<open>
  Row and column indices are JavaScript numbers that hold integers; the model takes them
  as unbounded \<^typ>\<open>nat\<close> and \<^typ>\<open>int\<close>. \<open>String(n)\<close> of such a number is
  its decimal numeral (for magnitudes below \<open>10^21\<close>), and \<open>parseInt(ds, 10)\<close> of a
  string of digits is the number it denotes.
\<close>

function show_nat :: "nat \<Rightarrow> string" where
  "show_nat n =
     (if n < 10 then [char_of (48 + n)]
      else show_nat (n div 10) @ [char_of (48 + n mod 10)])"
  by pat_completeness auto
termination
  by (relation "measure id") auto

definition show_int :: "int \<Rightarrow> string" where
  "show_int i = (if i < 0 then CHR ''-'' # show_nat (nat (- i)) else show_nat (nat i))"

definition parseInt :: "string \<Rightarrow> nat" where
  "parseInt ds = foldl (\<lambda>a ch. a * 10 + ((of_char ch :: nat) - 48)) 0 ds"

section \<open>Errors\<close>

datatype error =
    SheetNotFound string
  | SheetExists
  | BadA1 string
  | UnknownOp string
  | TypeError

section \<open>A1 references\<close>

text \<open>
  The match of \<open>/^([A-Za-z]+)([0-9]+)$/\<close>: the greedy letter group takes the longest
  prefix of letters, and the rest of the string has to be one or more digits.
\<close>

definition match_a1 :: "string \<Rightarrow> (string \<times> string) option" where
  "match_a1 s =
     (let ls = takeWhile is_alpha s; ds = dropWhile is_alpha s
      in if ls \<noteq> [] \<and> ds \<noteq> [] \<and> list_all is_digit ds then Some (ls, ds) else None)"

definition a1ToRc :: "string \<Rightarrow> error + (int \<times> int)" where
  "a1ToRc ref =
     (case match_a1 ref of
        None \<Rightarrow> Inl (BadA1 ref)
      | Some (ls, ds) \<Rightarrow>
          (let colStr = map to_upper ls;
               row = int (parseInt ds) - 1;
               col = foldl (\<lambda>col ch. col * 26 + (int (of_char ch) - 64)) 0 colStr
           in Inr (row, col - 1)))"

function colLetters :: "nat \<Rightarrow> string \<Rightarrow> string" where
  "colLetters n s =
     (if n > 0 then colLetters ((n - 1) div 26) (char_of (65 + (n - 1) mod 26) # s) else s)"
  by pat_completeness auto
termination
  by (relation "measure fst") auto

definition rcToA1 :: "nat \<Rightarrow> nat \<Rightarrow> string" where
  "rcToA1 r c = colLetters (c + 1) [] @ show_nat (r + 1)"

section \<open>Data model\<close>

text \<open>
  A JavaScript number is a finite double, an infinity or NaN. A finite double is
  represented by the rational it denotes; rounding is not modelled, so \<open>jadd\<close> is the
  IEEE sum wherever that sum is exact (on all integers of magnitude below \<open>2^53\<close>), and
  negative zero is identified with zero.
\<close>

datatype jsnum = Fin rat | PosInf | NegInf | NaN

fun jadd :: "jsnum \<Rightarrow> jsnum \<Rightarrow> jsnum" where
  "jadd (Fin a) (Fin b) = Fin (a + b)"
| "jadd NaN _ = NaN"
| "jadd _ NaN = NaN"
| "jadd PosInf NegInf = NaN"
| "jadd NegInf PosInf = NaN"
| "jadd PosInf _ = PosInf"
| "jadd _ PosInf = PosInf"
| "jadd NegInf _ = NegInf"
| "jadd _ NegInf = NegInf"

definition isNaN :: "jsnum \<Rightarrow> bool" where
  "isNaN n = (n = NaN)"

definition isFinite :: "jsnum \<Rightarrow> bool" where
  "isFinite n = (case n of Fin _ \<Rightarrow> True | _ \<Rightarrow> False)"

text \<open>A cell value: \<open>string | number | null\<close>.\<close>

datatype val = VNull | VNum jsnum | VStr string

record CellProvenance =
  docId :: string
  snippet :: "string option"
  rationale :: "string option"

text \<open>
  Provenance arrays are JavaScript objects: a snapshot of a cell is a shallow copy and
  shares the cell's array, and \<open>linkProvenance\<close> pushes onto the array in place. The
  model keeps the arrays in a store and a cell holds the address of its array. A new
  array is put at the end of the store.
\<close>

type_synonym addr = nat

type_synonym heap = "CellProvenance list list"

definition alloc :: "CellProvenance list \<Rightarrow> heap \<Rightarrow> addr \<times> heap" where
  "alloc ps h = (length h, h @ [ps])"

definition deref :: "heap \<Rightarrow> addr \<Rightarrow> CellProvenance list" where
  "deref h a = (if a < length h then h ! a else [])"

definition push_all :: "addr \<Rightarrow> CellProvenance list \<Rightarrow> heap \<Rightarrow> heap" where
  "push_all a ps h = (if a < length h then h[a := h ! a @ ps] else h)"

text \<open>
  A cell. An absent optional field (\<open>undefined\<close>) is \<open>None\<close>; the value of the object
  \<open>{}\<close>, which is \<open>undefined\<close>, is identified with \<open>null\<close> (every reader of the
  engine takes \<open>value ?? null\<close>).
\<close>

record Cell =
  cell_value :: val
  formula :: "string option"
  provenance :: "addr option"
  format :: "string option"

definition empty_cell :: Cell where
  "empty_cell = \<lparr>cell_value = VNull, formula = None, provenance = None, format = None\<rparr>"

text \<open>
  A row is a JavaScript array of cells. A slot is \<open>None\<close> where the array has a hole;
  reading a hole or reading past the end gives \<open>undefined\<close>, and writing past the end
  extends the array, leaving holes.
\<close>

type_synonym row = "Cell option list"

definition js_at :: "row \<Rightarrow> nat \<Rightarrow> Cell option" where
  "js_at xs i = (if i < length xs then xs ! i else None)"

definition js_set :: "row \<Rightarrow> nat \<Rightarrow> Cell \<Rightarrow> row" where
  "js_set xs i x =
     (if i < length xs then xs[i := Some x]
      else xs @ replicate (i - length xs) None @ [Some x])"

record Sheet =
  name :: string
  rows :: "row list"

record RangeRef =
  sheet :: string
  r1 :: nat
  c1 :: nat
  r2 :: nat
  c2 :: nat

text \<open>
  The operations \<open>dispatch\<close> knows, each with its arguments as the method takes them
  (\<open>restoreSheet\<close> takes a sheet object, given by its name and rows), and \<open>Other\<close> for
  any other operation name. The type parameter is the type of the cell objects in the
  arguments: inside the engine a cell's provenance is the address of its array
  (\<open>SheetOp\<close>); in a request that arrives as JSON it is written out (\<open>Request\<close>).
\<close>

datatype 'c GenOp =
    CreateSheet string
  | DeleteSheet string
  | RestoreSheet string "'c option list list"
  | SetValues RangeRef "val list list" "CellProvenance list option"
  | SetFormulas RangeRef "string option list list"
  | FormatRange RangeRef "string option"
  | SetCells RangeRef "'c list list"
  | LinkProvenance RangeRef "CellProvenance list"
  | Noop
  | Other string

type_synonym SheetOp = "Cell GenOp"



text \<open>
  An event: the operation's name, its inverse and the summary. The identifier and the
  timestamp (random and clock values) and the argument record, which the engine stores
  and never reads, are left out.
\<close>

record SheetEvent =
  ev_op :: string
  inverse :: SheetOp
  summary :: string

text \<open>A checkpoint; \<open>cp_id = None\<close> stands for a generated identifier.\<close>

record Checkpoint =
  cp_id :: "string option"
  atEvent :: nat

text \<open>
  The workbook. \<open>sheets\<close> is a JavaScript \<open>Map\<close>: an association list in insertion
  order with distinct keys. \<open>store\<close> holds the provenance arrays.
\<close>

record Workbook =
  sheets :: "(string \<times> Sheet) list"
  checkpoints :: "Checkpoint list"
  events :: "SheetEvent list"
  store :: heap

section \<open>The state engine\<close>

text \<open>
  A method of \<open>SheetModel\<close> takes the workbook and returns its result, or the error it
  throws, together with the workbook as the method leaves it: a method that throws
  after it has written keeps what it wrote.
\<close>

type_synonym 'a action = "Workbook \<Rightarrow> (error + 'a) \<times> Workbook"

definition ret :: "'a \<Rightarrow> 'a action" where
  "ret x = (\<lambda>wb. (Inr x, wb))"

definition throw :: "error \<Rightarrow> 'a action" where
  "throw e = (\<lambda>wb. (Inl e, wb))"

definition andThen :: "'a action \<Rightarrow> ('a \<Rightarrow> 'b action) \<Rightarrow> 'b action" where
  "andThen m f = (\<lambda>wb. case m wb of (Inl e, wb') \<Rightarrow> (Inl e, wb') | (Inr x, wb') \<Rightarrow> f x wb')"

text \<open>A loop body run over a list, stopping at the first throw.\<close>

fun for_each :: "('a \<Rightarrow> 's \<Rightarrow> (error + unit) \<times> 's) \<Rightarrow> 'a list \<Rightarrow> 's \<Rightarrow> (error + unit) \<times> 's" where
  "for_each f [] s = (Inr (), s)"
| "for_each f (x # xs) s =
     (case f x s of (Inl e, s') \<Rightarrow> (Inl e, s') | (Inr _, s') \<Rightarrow> for_each f xs s')"

fun map_err :: "('a \<Rightarrow> error + 'b) \<Rightarrow> 'a list \<Rightarrow> error + 'b list" where
  "map_err f [] = Inr []"
| "map_err f (x # xs) =
     (case f x of Inl e \<Rightarrow> Inl e
      | Inr y \<Rightarrow> (case map_err f xs of Inl e \<Rightarrow> Inl e | Inr ys \<Rightarrow> Inr (y # ys)))"

subsection \<open>Helpers\<close>

definition getSheet :: "string \<Rightarrow> Sheet action" where
  "getSheet nm = (\<lambda>wb. case map_of (sheets wb) nm of
      None \<Rightarrow> (Inl (SheetNotFound nm), wb) | Some s \<Rightarrow> (Inr s, wb))"

text \<open>
  The methods hold a reference \<open>s\<close> to the sheet and write to \<open>s.rows\<close>; the sheet
  stays in the map meanwhile. \<open>on_sheet nm f\<close> runs \<open>f\<close> on the rows of the sheet
  \<open>nm\<close> and the store and puts both back, also when \<open>f\<close> throws.
\<close>

definition set_rows :: "string \<Rightarrow> row list \<Rightarrow> Workbook \<Rightarrow> Workbook" where
  "set_rows nm rws wb = wb\<lparr>sheets := AList.map_entry nm (\<lambda>s. s\<lparr>rows := rws\<rparr>) (sheets wb)\<rparr>"

definition on_sheet :: "string \<Rightarrow> (row list \<times> heap \<Rightarrow> (error + 'a) \<times> row list \<times> heap) \<Rightarrow> 'a action" where
  "on_sheet nm f = andThen (getSheet nm) (\<lambda>s wb.
     case f (rows s, store wb) of (res, rws, h) \<Rightarrow> (res, set_rows nm rws (wb\<lparr>store := h\<rparr>)))"

definition pad_row :: "nat \<Rightarrow> row \<Rightarrow> row" where
  "pad_row cols rw = rw @ replicate (cols - length rw) (Some empty_cell)"

definition grow_rows :: "nat \<Rightarrow> nat \<Rightarrow> row list \<Rightarrow> row list" where
  "grow_rows n cols rws = map (pad_row cols) (rws @ replicate (n - length rws) [])"

definition ensureSize :: "string \<Rightarrow> nat \<Rightarrow> nat \<Rightarrow> unit action" where
  "ensureSize nm n cols = on_sheet nm (\<lambda>(rws, h). (Inr (), grow_rows n cols rws, h))"

text \<open>\<open>{ ...s.rows[r][c] }\<close>: the spread of \<open>undefined\<close> is the empty object.\<close>

definition copy_cell :: "Cell option \<Rightarrow> Cell" where
  "copy_cell sl = (case sl of None \<Rightarrow> empty_cell | Some cl \<Rightarrow> cl)"

definition snap_row :: "row list \<Rightarrow> RangeRef \<Rightarrow> nat \<Rightarrow> error + Cell list" where
  "snap_row rws rg r =
     (if r < length rws then Inr (map (\<lambda>c. copy_cell (js_at (rws ! r) c)) [c1 rg..<Suc (c2 rg)])
      else if c1 rg \<le> c2 rg then Inl TypeError
      else Inr [])"

definition snapshot :: "RangeRef \<Rightarrow> Cell list list action" where
  "snapshot rg =
     andThen (getSheet (sheet rg)) (\<lambda>_.
     andThen (ensureSize (sheet rg) (r2 rg + 1) (c2 rg + 1)) (\<lambda>_.
     on_sheet (sheet rg) (\<lambda>(rws, h).
       (map_err (snap_row rws rg) [r1 rg..<Suc (r2 rg)], rws, h))))"

subsection \<open>Events and checkpoints\<close>

definition appendEvent :: "string \<Rightarrow> SheetOp \<Rightarrow> string \<Rightarrow> unit action" where
  "appendEvent opn iv summ = (\<lambda>wb.
     (Inr (), wb\<lparr>events := events wb @ [\<lparr>ev_op = opn, inverse = iv, summary = summ\<rparr>]\<rparr>))"

definition checkpoint :: "string option \<Rightarrow> Workbook \<Rightarrow> Workbook" where
  "checkpoint cid wb =
     wb\<lparr>checkpoints := checkpoints wb @ [\<lparr>cp_id = cid, atEvent = length (events wb)\<rparr>]\<rparr>"

subsection \<open>Sheet operations\<close>

definition createSheet :: "string \<Rightarrow> unit action" where
  "createSheet nm = (\<lambda>wb.
     if map_of (sheets wb) nm \<noteq> None then (Inl SheetExists, wb)
     else appendEvent ''createSheet'' (DeleteSheet nm) (''create '' @ nm)
            (wb\<lparr>sheets := AList.update nm \<lparr>name = nm, rows = []\<rparr> (sheets wb)\<rparr>))"

definition deleteSheet :: "string \<Rightarrow> unit action" where
  "deleteSheet nm =
     andThen (getSheet nm) (\<lambda>s wb.
       appendEvent ''deleteSheet'' (RestoreSheet (name s) (rows s)) (''delete '' @ nm)
         (wb\<lparr>sheets := AList.delete nm (sheets wb)\<rparr>))"

definition restoreSheet :: "Sheet \<Rightarrow> unit action" where
  "restoreSheet sh = (\<lambda>wb.
     appendEvent ''restoreSheet'' (DeleteSheet (name sh)) (''restore '' @ name sh)
       (wb\<lparr>sheets := AList.update (name sh) sh (sheets wb)\<rparr>))"

text \<open>
  The body of the loop of \<open>setValues\<close> at one cell: \<open>s.rows[rr][cc]\<close> throws when the
  row \<open>rr\<close> does not exist; the new cell keeps the old format, and its provenance is a
  fresh copy of the argument when one is given.
\<close>

definition write_value ::
  "nat \<Rightarrow> nat \<Rightarrow> val \<Rightarrow> CellProvenance list option \<Rightarrow> row list \<times> heap \<Rightarrow> (error + unit) \<times> row list \<times> heap" where
  "write_value rr cc v prov = (\<lambda>(rws, h).
     if rr < length rws then
       (let prev = (case js_at (rws ! rr) cc of None \<Rightarrow> empty_cell | Some cl \<Rightarrow> cl);
            (p, h') = (case prov of
                         Some ps \<Rightarrow> (case alloc ps h of (a, h1) \<Rightarrow> (Some a, h1))
                       | None \<Rightarrow> (provenance prev, h))
        in (Inr (), rws[rr := js_set (rws ! rr) cc
                      (prev\<lparr>cell_value := v, formula := None, provenance := p\<rparr>)], h'))
     else (Inl TypeError, rws, h))"

definition setValues :: "RangeRef \<Rightarrow> val list list \<Rightarrow> CellProvenance list option \<Rightarrow> unit action" where
  "setValues rg vals prov =
     andThen (snapshot rg) (\<lambda>before.
     andThen (getSheet (sheet rg)) (\<lambda>_.
     andThen (ensureSize (sheet rg) (r2 rg + 1) (c2 rg + 1)) (\<lambda>_.
     andThen (on_sheet (sheet rg)
        (for_each (\<lambda>(r, vs). for_each (\<lambda>(c, v). write_value (r1 rg + r) (c1 rg + c) v prov)
                                 (enumerate 0 vs))
           (enumerate 0 vals))) (\<lambda>_.
     appendEvent ''setValues'' (SetCells rg before)
       (''setValues '' @ sheet rg @ ''!'' @ rcToA1 (r1 rg) (c1 rg))))))"

definition write_cell :: "nat \<Rightarrow> nat \<Rightarrow> Cell \<Rightarrow> row list \<times> heap \<Rightarrow> (error + unit) \<times> row list \<times> heap" where
  "write_cell rr cc cl = (\<lambda>(rws, h).
     if rr < length rws then (Inr (), rws[rr := js_set (rws ! rr) cc cl], h)
     else (Inl TypeError, rws, h))"

definition setCells :: "RangeRef \<Rightarrow> Cell list list \<Rightarrow> unit action" where
  "setCells rg cells =
     andThen (getSheet (sheet rg)) (\<lambda>_.
     andThen (ensureSize (sheet rg) (r2 rg + 1) (c2 rg + 1)) (\<lambda>_.
     andThen (on_sheet (sheet rg)
        (for_each (\<lambda>(r, cls). for_each (\<lambda>(c, cl). write_cell (r1 rg + r) (c1 rg + c) cl)
                                  (enumerate 0 cls))
           (enumerate 0 cells))) (\<lambda>_.
     appendEvent ''setCells'' Noop ''setCells'')))"

definition write_formula :: "nat \<Rightarrow> nat \<Rightarrow> string option \<Rightarrow> row list \<times> heap \<Rightarrow> (error + unit) \<times> row list \<times> heap" where
  "write_formula rr cc f = (\<lambda>(rws, h).
     if rr < length rws then
       (let prev = (case js_at (rws ! rr) cc of None \<Rightarrow> empty_cell | Some cl \<Rightarrow> cl)
        in (Inr (), rws[rr := js_set (rws ! rr) cc (prev\<lparr>cell_value := VNull, formula := f\<rparr>)], h))
     else (Inl TypeError, rws, h))"

definition setFormulas :: "RangeRef \<Rightarrow> string option list list \<Rightarrow> unit action" where
  "setFormulas rg formulas =
     andThen (snapshot rg) (\<lambda>before.
     andThen (getSheet (sheet rg)) (\<lambda>_.
     andThen (ensureSize (sheet rg) (r2 rg + 1) (c2 rg + 1)) (\<lambda>_.
     andThen (on_sheet (sheet rg)
        (for_each (\<lambda>(r, fs). for_each (\<lambda>(c, f). write_formula (r1 rg + r) (c1 rg + c) f)
                                 (enumerate 0 fs))
           (enumerate 0 formulas))) (\<lambda>_.
     appendEvent ''setFormulas'' (SetCells rg before)
       (''setFormulas '' @ sheet rg @ ''!'' @ rcToA1 (r1 rg) (c1 rg))))))"

definition write_format :: "string option \<Rightarrow> nat \<Rightarrow> nat \<Rightarrow> row list \<times> heap \<Rightarrow> (error + unit) \<times> row list \<times> heap" where
  "write_format fmt r c = (\<lambda>(rws, h).
     if r < length rws then
       (let prev = (case js_at (rws ! r) c of None \<Rightarrow> empty_cell | Some cl \<Rightarrow> cl)
        in (Inr (), rws[r := js_set (rws ! r) c (prev\<lparr>format := fmt\<rparr>)], h))
     else (Inl TypeError, rws, h))"

definition formatRange :: "RangeRef \<Rightarrow> string option \<Rightarrow> unit action" where
  "formatRange rg fmt =
     andThen (snapshot rg) (\<lambda>before.
     andThen (getSheet (sheet rg)) (\<lambda>_.
     andThen (ensureSize (sheet rg) (r2 rg + 1) (c2 rg + 1)) (\<lambda>_.
     andThen (on_sheet (sheet rg)
        (for_each (\<lambda>r. for_each (write_format fmt r) [c1 rg..<Suc (c2 rg)])
           [r1 rg..<Suc (r2 rg)])) (\<lambda>_.
     appendEvent ''formatRange'' (SetCells rg before)
       (''formatRange '' @ sheet rg @ '' '' @ (case fmt of None \<Rightarrow> ''clear'' | Some f \<Rightarrow> f))))))"

text \<open>
  The body of the loop of \<open>linkProvenance\<close>: \<open>s.rows[r][c]\<close> throws when the row
  does not exist and \<open>cell.provenance\<close> throws when the slot is a hole; a cell with no
  array gets a new empty one; the entries are pushed onto the cell's array in place.
\<close>

definition link_cell :: "CellProvenance list \<Rightarrow> nat \<Rightarrow> nat \<Rightarrow> row list \<times> heap \<Rightarrow> (error + unit) \<times> row list \<times> heap" where
  "link_cell prov r c = (\<lambda>(rws, h).
     if r < length rws then
       (case js_at (rws ! r) c of
          None \<Rightarrow> (Inl TypeError, rws, h)
        | Some cl \<Rightarrow>
            (case provenance cl of
               Some a \<Rightarrow> (Inr (), rws, push_all a prov h)
             | None \<Rightarrow>
                 (case alloc [] h of (a, h1) \<Rightarrow>
                    (Inr (), rws[r := js_set (rws ! r) c (cl\<lparr>provenance := Some a\<rparr>)],
                     push_all a prov h1))))
     else (Inl TypeError, rws, h))"

definition linkProvenance :: "RangeRef \<Rightarrow> CellProvenance list \<Rightarrow> unit action" where
  "linkProvenance rg prov =
     andThen (snapshot rg) (\<lambda>before.
     andThen (getSheet (sheet rg)) (\<lambda>_.
     andThen (on_sheet (sheet rg)
        (for_each (\<lambda>r. for_each (link_cell prov r) [c1 rg..<Suc (c2 rg)])
           [r1 rg..<Suc (r2 rg)])) (\<lambda>_.
     appendEvent ''linkProvenance'' (SetCells rg before) (''linkProvenance '' @ sheet rg))))"

subsection \<open>Dispatch and undo\<close>

fun dispatch :: "SheetOp \<Rightarrow> bool \<Rightarrow> unit action" where
  "dispatch (CreateSheet nm) internal = createSheet nm"
| "dispatch (DeleteSheet nm) internal = deleteSheet nm"
| "dispatch (RestoreSheet nm rws) internal = restoreSheet \<lparr>name = nm, rows = rws\<rparr>"
| "dispatch (SetValues rg vals prov) internal = setValues rg vals prov"
| "dispatch (SetFormulas rg formulas) internal = setFormulas rg formulas"
| "dispatch (FormatRange rg fmt) internal = formatRange rg fmt"
| "dispatch (SetCells rg cells) internal = setCells rg cells"
| "dispatch (LinkProvenance rg prov) internal = linkProvenance rg prov"
| "dispatch Noop internal = ret ()"
| "dispatch (Other n) internal = (if \<not> internal then throw (UnknownOp n) else ret ())"

definition undo :: "SheetEvent option action" where
  "undo = (\<lambda>wb.
     case rev (events wb) of
       [] \<Rightarrow> (Inr None, wb)
     | ev # _ \<Rightarrow>
         andThen (dispatch (inverse ev) True) (\<lambda>_. ret (Some ev))
           (wb\<lparr>events := butlast (events wb)\<rparr>))"

text \<open>The constructor: one empty sheet and the checkpoint \<open>init\<close>.\<close>

definition new_workbook :: Workbook where
  "new_workbook =
     checkpoint (Some ''init'')
       (snd (createSheet ''Sheet1'' \<lparr>sheets = [], checkpoints = [], events = [], store = []\<rparr>))"

text \<open>What a reader sees at a position of a sheet, and the entries of a cell's array.\<close>

definition slot :: "row list \<Rightarrow> nat \<Rightarrow> nat \<Rightarrow> Cell option" where
  "slot rws r c = (if r < length rws then js_at (rws ! r) c else None)"

definition cell_at :: "Workbook \<Rightarrow> string \<Rightarrow> nat \<Rightarrow> nat \<Rightarrow> Cell option" where
  "cell_at wb nm r c =
     (case map_of (sheets wb) nm of
        None \<Rightarrow> None
      | Some s \<Rightarrow> slot (rows s) r c)"

definition prov_list :: "Workbook \<Rightarrow> Cell \<Rightarrow> CellProvenance list option" where
  "prov_list wb cl = map_option (deref (store wb)) (provenance cl)"

section \<open>The formula evaluator\<close>

text \<open>
  The evaluator leans on three services of the JavaScript runtime that are not code of
  the engine: \<open>Number(s)\<close> of a string, \<open>String(n)\<close> of a number, and the evaluation
  of the rewritten formula text by \<open>Function('"use strict"; return (' + expr + ')')()\<close>.
  They are parameters of the model. The formula text runs in the global scope, where it
  cannot reach the workbook, so its run is taken as a function of the text: it returns a
  value, throws, or does not return. A value that is not a number is given by what
  \<open>Number\<close> makes of it (\<open>None\<close> when \<open>Number\<close> throws on it).
\<close>

datatype jsvalue = JNum jsnum | JOther "jsnum option"

datatype js_run = Returns jsvalue | Throws | Diverges

record js_runtime =
  to_number :: "string \<Rightarrow> jsnum"
  num_to_string :: "jsnum \<Rightarrow> string"
  run_expr :: "string \<Rightarrow> js_run"
  type_error_message :: string

text \<open>
  An evaluation works on the workbook (which \<open>getCell\<close> may grow) and on the set
  \<open>seen\<close> of visited keys. It returns \<open>None\<close> when it does not return.
\<close>

type_synonym estate = "Workbook \<times> string set"

type_synonym 'a eval = "estate \<Rightarrow> ((error + 'a) \<times> estate) option"

definition eret :: "'a \<Rightarrow> 'a eval" where
  "eret x = (\<lambda>st. Some (Inr x, st))"

definition ebind :: "'a eval \<Rightarrow> ('a \<Rightarrow> 'b eval) \<Rightarrow> 'b eval" where
  "ebind m f = (\<lambda>st. case m st of
      None \<Rightarrow> None
    | Some (Inl e, st') \<Rightarrow> Some (Inl e, st')
    | Some (Inr x, st') \<Rightarrow> f x st')"

fun emap :: "('a \<Rightarrow> 'b eval) \<Rightarrow> 'a list \<Rightarrow> 'b list eval" where
  "emap f [] = eret []"
| "emap f (x # xs) = ebind (f x) (\<lambda>y. ebind (emap f xs) (\<lambda>ys. eret (y # ys)))"

fun efold :: "('a \<Rightarrow> 'b \<Rightarrow> 'b eval) \<Rightarrow> 'a list \<Rightarrow> 'b \<Rightarrow> 'b eval" where
  "efold f [] acc = eret acc"
| "efold f (x # xs) acc = ebind (f x acc) (efold f xs)"

text \<open>The type of \<open>evaluateCell\<close>, which the helpers below call back.\<close>

type_synonym cellfn = "string \<Rightarrow> int \<Rightarrow> int \<Rightarrow> val eval"

text \<open>
  \<open>getCell\<close>: \<open>rows[r]\<close> is \<open>undefined\<close> for a negative \<open>r\<close>, and reading \<open>[c]\<close> of
  it throws; \<open>rows[r][c]\<close> is \<open>undefined\<close> for a negative \<open>c\<close> and at a hole.
\<close>

definition getCell :: "string \<Rightarrow> int \<Rightarrow> int \<Rightarrow> Cell option action" where
  "getCell sh r c =
     andThen (ensureSize sh (nat (r + 1)) (nat (c + 1))) (\<lambda>_.
     andThen (getSheet sh) (\<lambda>s.
       if r < 0 \<or> length (rows s) \<le> nat r then throw TypeError
       else ret (if c < 0 then None else js_at (rows s ! nat r) (nat c))))"

definition evalRef :: "cellfn \<Rightarrow> js_runtime \<Rightarrow> string \<Rightarrow> string \<Rightarrow> jsnum eval" where
  "evalRef ev rt sh a1 =
     (case a1ToRc a1 of
        Inl e \<Rightarrow> (\<lambda>st. Some (Inl e, st))
      | Inr (r, c) \<Rightarrow>
          ebind (ev sh r c) (\<lambda>v. eret
            (case v of
               VNum n \<Rightarrow> n
             | VNull \<Rightarrow> Fin 0
             | VStr str \<Rightarrow> (let n = to_number rt str in if isNaN n then Fin 0 else n))))"

text \<open>
  The match of \<open>/^([A-Z]+)([0-9]+):([A-Z]+)([0-9]+)$/i\<close>, group by group from the
  left; \<open>sumTerm\<close> tests the same pattern.
\<close>

definition match_range :: "string \<Rightarrow> (string \<times> string \<times> string \<times> string) option" where
  "match_range s =
     (let ls1 = takeWhile is_alpha s; t1 = dropWhile is_alpha s;
          ds1 = takeWhile is_digit t1; t2 = dropWhile is_digit t1
      in if ls1 \<noteq> [] \<and> ds1 \<noteq> [] \<and> t2 \<noteq> [] \<and> hd t2 = CHR '':'' then
           (case match_a1 (tl t2) of
              Some (ls2, ds2) \<Rightarrow> Some (ls1, ds1, ls2, ds2)
            | None \<Rightarrow> None)
         else None)"

text \<open>\<open>Number(v)\<close> of what \<open>evaluateCell\<close> returned; \<open>Number(null)\<close> is 0.\<close>

definition number_of_val :: "js_runtime \<Rightarrow> val \<Rightarrow> jsnum" where
  "number_of_val rt v = (case v of VNum n \<Rightarrow> n | VNull \<Rightarrow> Fin 0 | VStr str \<Rightarrow> to_number rt str)"

definition sumRange :: "cellfn \<Rightarrow> js_runtime \<Rightarrow> string \<Rightarrow> string \<Rightarrow> jsnum eval" where
  "sumRange ev rt sh a1range =
     (case match_range a1range of
        None \<Rightarrow> eret (Fin 0)
      | Some (ls1, ds1, ls2, ds2) \<Rightarrow>
          (case a1ToRc (ls1 @ ds1) of
             Inl e \<Rightarrow> (\<lambda>st. Some (Inl e, st))
           | Inr (ar, ac) \<Rightarrow>
               (case a1ToRc (ls2 @ ds2) of
                  Inl e \<Rightarrow> (\<lambda>st. Some (Inl e, st))
                | Inr (br, bc) \<Rightarrow>
                    efold (\<lambda>r. efold (\<lambda>c total.
                             ebind (ev sh r c) (\<lambda>v.
                               let n = number_of_val rt v
                               in eret (if \<not> isNaN n then jadd total n else total)))
                           [min ac bc..max ac bc])
                      [min ar br..max ar br] (Fin 0))))"

definition sumTerm :: "cellfn \<Rightarrow> js_runtime \<Rightarrow> string \<Rightarrow> string \<Rightarrow> jsnum eval" where
  "sumTerm ev rt sh term0 =
     (let term = trim term0
      in if match_range term \<noteq> None then sumRange ev rt sh term
         else if match_a1 term \<noteq> None then evalRef ev rt sh term
         else (let n = to_number rt (filter (\<lambda>ch. ch \<noteq> CHR '','') term)
               in eret (if isFinite n then n else Fin 0)))"

text \<open>\<open>String.prototype.split\<close> at a separator character.\<close>

fun split_on :: "char \<Rightarrow> string \<Rightarrow> string list" where
  "split_on sep [] = [[]]"
| "split_on sep (ch # cs) =
     (if ch = sep then [] # split_on sep cs
      else (case split_on sep cs of
              [] \<Rightarrow> [[ch]]
            | x # xs \<Rightarrow> (ch # x) # xs))"

definition sumArgs :: "cellfn \<Rightarrow> js_runtime \<Rightarrow> string \<Rightarrow> string \<Rightarrow> jsnum eval" where
  "sumArgs ev rt sh args =
     ebind (emap (sumTerm ev rt sh) (split_on CHR '','' args)) (\<lambda>ns. eret (foldl jadd (Fin 0) ns))"

text \<open>
  \<open>String.prototype.replace\<close> with a global pattern and a callback cuts the text into
  the stretches between matches and the matches, calls the callback on each match from
  left to right, and joins the results.
\<close>

datatype piece = Text string | Match string

text \<open>
  \<open>/SUM\(\s*([^)]+?)\s*\)/gi\<close> at the start of a text: after \<open>SUM(\<close> in any case,
  the match runs to the first \<open>)\<close>, and the text before it must not be empty. The group
  is that text without the white space around it; if it is all white space, the group is
  its last character. The result is the group and the text after the match.
\<close>

definition sum_group :: "string \<Rightarrow> string" where
  "sum_group body =
     (let b = dropWhile is_space body
      in if b = [] then [last body] else rev (dropWhile is_space (rev b)))"

definition match_sum_at :: "string \<Rightarrow> (string \<times> string) option" where
  "match_sum_at s =
     (case s of
        a # b # c # d # rest \<Rightarrow>
          (let body = takeWhile (\<lambda>ch. ch \<noteq> CHR '')'') rest;
               after = dropWhile (\<lambda>ch. ch \<noteq> CHR '')'') rest
           in if to_upper a = CHR ''S'' \<and> to_upper b = CHR ''U'' \<and> to_upper c = CHR ''M''
                 \<and> d = CHR ''('' \<and> body \<noteq> [] \<and> after \<noteq> []
              then Some (sum_group body, tl after) else None)
      | _ \<Rightarrow> None)"

lemma match_sum_at_shorter: "match_sum_at s = Some (g, rest) \<Longrightarrow> length rest < length s"
proof -
  have *: "length (tl (dropWhile P xs)) \<le> length xs" for P and xs :: string
    using length_dropWhile_le [of P xs] by simp
  assume "match_sum_at s = Some (g, rest)"
  then show ?thesis
    using * [of "\<lambda>ch. ch \<noteq> CHR '')''"]
    by (auto simp: match_sum_at_def Let_def less_Suc_eq_le le_SucI split: list.splits if_splits)
qed

function sum_pieces :: "string \<Rightarrow> piece list" where
  "sum_pieces [] = []"
| "sum_pieces (ch # cs) =
     (case match_sum_at (ch # cs) of
        Some (g, rest) \<Rightarrow> Match g # sum_pieces rest
      | None \<Rightarrow> Text [ch] # sum_pieces cs)"
  by pat_completeness auto
termination
  by (relation "measure length") (auto dest: match_sum_at_shorter)

text \<open>
  \<open>/\b([A-Za-z]+[0-9]+)\b/g\<close>: a match starts and ends at a word boundary, so it is a
  whole run of word characters, and the run has to be letters followed by digits.
  \<open>ref_pieces w s\<close> cuts \<open>s\<close>, with \<open>w\<close> the run of word characters read so far.
\<close>

definition word_piece :: "string \<Rightarrow> piece list" where
  "word_piece w = (if w = [] then [] else if match_a1 w \<noteq> None then [Match w] else [Text w])"

fun ref_pieces :: "string \<Rightarrow> string \<Rightarrow> piece list" where
  "ref_pieces w [] = word_piece w"
| "ref_pieces w (ch # cs) =
     (if is_word ch then ref_pieces (w @ [ch]) cs
      else word_piece w @ Text [ch] # ref_pieces [] cs)"

definition replace_pieces :: "(string \<Rightarrow> jsnum eval) \<Rightarrow> js_runtime \<Rightarrow> piece list \<Rightarrow> string eval" where
  "replace_pieces callback rt ps =
     ebind (emap (\<lambda>p. case p of
                    Text t \<Rightarrow> eret t
                  | Match m \<Rightarrow> ebind (callback m) (\<lambda>n. eret (num_to_string rt n))) ps)
       (\<lambda>strs. eret (concat strs))"

text \<open>
  The last step of \<open>evaluateCell\<close>: run the text; a number is returned as it is, any
  other value \<open>val\<close> as \<open>Number(val) || 0\<close>; a throw gives \<open>#ERROR!\<close>.
\<close>

definition run_formula :: "js_runtime \<Rightarrow> string \<Rightarrow> val eval" where
  "run_formula rt expr =
     (case run_expr rt expr of
        Diverges \<Rightarrow> (\<lambda>st. None)
      | Throws \<Rightarrow> eret (VStr ''#ERROR!'')
      | Returns (JNum n) \<Rightarrow> eret (VNum n)
      | Returns (JOther None) \<Rightarrow> eret (VStr ''#ERROR!'')
      | Returns (JOther (Some n)) \<Rightarrow> eret (VNum (if n = NaN \<or> n = Fin 0 then Fin 0 else n)))"

text \<open>The key of a cell in \<open>seen\<close>: the template \<open>`${sheet}:${r}:${c}`\<close>.\<close>

definition cell_key :: "string \<Rightarrow> int \<Rightarrow> int \<Rightarrow> string" where
  "cell_key sh r c = sh @ '':'' @ show_int r @ '':'' @ show_int c"

text \<open>
  \<open>evaluateCell\<close>. The first argument bounds the depth of the recursion: with \<open>0\<close>
  the function does not return.
\<close>

fun evaluateCell :: "nat \<Rightarrow> js_runtime \<Rightarrow> cellfn" where
  "evaluateCell 0 rt sh r c = (\<lambda>st. None)"
| "evaluateCell (Suc k) rt sh r c = (\<lambda>(wb, seen).
     let key = cell_key sh r c
     in if key \<in> seen then Some (Inr (VStr ''#REF!''), wb, seen)
        else
          (case getCell sh r c wb of
             (Inl e, wb1) \<Rightarrow> Some (Inl e, wb1, insert key seen)
           | (Inr None, wb1) \<Rightarrow> Some (Inl TypeError, wb1, insert key seen)
           | (Inr (Some cl), wb1) \<Rightarrow>
               (case formula cl of
                  None \<Rightarrow> Some (Inr (cell_value cl), wb1, insert key seen)
                | Some ftext \<Rightarrow>
                    if ftext = [] then Some (Inr (cell_value cl), wb1, insert key seen)
                    else
                      (let f = trim ftext
                       in if f = [] \<or> hd f \<noteq> CHR ''=''
                          then Some (Inr (cell_value cl), wb1, insert key seen)
                          else
                            ebind (replace_pieces (sumArgs (evaluateCell k rt) rt sh) rt
                                     (sum_pieces (tl f))) (\<lambda>expr1.
                            ebind (replace_pieces (evalRef (evaluateCell k rt) rt sh) rt
                                     (ref_pieces [] expr1)) (\<lambda>expr2.
                            run_formula rt expr2))
                              (wb1, insert key seen)))))"




section \<open>The plan executor\<close>










section \<open>A runtime and workbooks for the examples\<close>

text \<open>
  \<open>rt_int\<close> is a runtime that agrees with JavaScript on the texts the examples below
  hand to it: \<open>Number\<close> of a string of decimal digits, of the empty string and of a
  text that is no numeral; \<open>String\<close> of an integer; and the value of a sum of decimal
  numerals. It stands for no more than that.
\<close>


definition digits_only :: "string \<Rightarrow> bool" where
  "digits_only s = (s \<noteq> [] \<and> list_all is_digit s)"

definition rt_int :: js_runtime where
  "rt_int = \<lparr>
     to_number = (\<lambda>s. let t = trim s in
                    if t = [] then Fin 0
                    else if digits_only t then Fin (of_nat (parseInt t)) else NaN),
     num_to_string = (\<lambda>n. case n of
                         Fin q \<Rightarrow> (if q < 0 then CHR ''-'' # show_nat (nat (- \<lfloor>q\<rfloor>)) else show_nat (nat \<lfloor>q\<rfloor>))
                       | PosInf \<Rightarrow> ''Infinity'' | NegInf \<Rightarrow> ''-Infinity'' | NaN \<Rightarrow> ''NaN''),
     run_expr = (\<lambda>s. let parts = split_on CHR ''+'' s in
                   if list_all digits_only parts
                   then Returns (JNum (Fin (of_nat (sum_list (map parseInt parts)))))
                   else Throws),
     type_error_message = ''Cannot read properties of undefined''\<rparr>"


definition wb_selfref :: Workbook where
  "wb_selfref = snd (setFormulas \<lparr>sheet = ''Sheet1'', r1 = 0, c1 = 0, r2 = 0, c2 = 0\<rparr>
                       [[Some ''=A1+1'']] new_workbook)"

definition wb_ref_b3 :: Workbook where
  "wb_ref_b3 = snd (setFormulas \<lparr>sheet = ''Sheet1'', r1 = 0, c1 = 0, r2 = 0, c2 = 0\<rparr>
                      [[Some ''=B3'']] new_workbook)"

definition wb_sum :: Workbook where
  "wb_sum =
     snd (setFormulas \<lparr>sheet = ''Sheet1'', r1 = 3, c1 = 0, r2 = 3, c2 = 0\<rparr> [[Some ''=SUM(A1:A3)'']]
       (snd (setValues \<lparr>sheet = ''Sheet1'', r1 = 0, c1 = 0, r2 = 2, c2 = 0\<rparr>
               [[VNum (Fin 1)], [VStr ''x''], [VNull]] None new_workbook)))"


definition rgA1 :: RangeRef where
  "rgA1 = \<lparr>sheet = ''Sheet1'', r1 = 0, c1 = 0, r2 = 0, c2 = 0\<rparr>"




text \<open>
  A cell with a provenance entry, a checkpoint, and then \<open>linkProvenance\<close> on the
  cell; \<open>undo_n n\<close> calls \<open>undo\<close> \<open>n\<close> times.
\<close>

definition prov_a :: CellProvenance where
  "prov_a = \<lparr>docId = ''10-K'', snippet = Some ''Revenue'', rationale = None\<rparr>"

definition prov_b :: CellProvenance where
  "prov_b = \<lparr>docId = ''10-Q'', snippet = None, rationale = None\<rparr>"

definition wb_prov0 :: Workbook where
  "wb_prov0 = checkpoint (Some ''cp'')
                (snd (setValues rgA1 [[VNum (Fin 1)]] (Some [prov_a]) new_workbook))"

definition wb_prov1 :: Workbook where
  "wb_prov1 = snd (linkProvenance rgA1 [prov_b] wb_prov0)"

fun undo_n :: "nat \<Rightarrow> Workbook \<Rightarrow> Workbook" where
  "undo_n 0 wb = wb"
| "undo_n (Suc n) wb = undo_n n (snd (undo wb))"

definition prov_A1 :: "Workbook \<Rightarrow> CellProvenance list option option" where
  "prov_A1 wb = map_option (prov_list wb) (cell_at wb ''Sheet1'' 0 0)"

section \<open>Growth of a workbook\<close>

text \<open>
  \<open>ensureSize\<close> appends empty rows and pads rows with empty cells. \<open>grown wb wb'\<close>
  says that \<open>wb'\<close> is \<open>wb\<close> up to such growth: the same events, checkpoints, store and
  sheet names, and every row of \<open>wb'\<close> is the row of \<open>wb\<close> (or a new row) followed by
  empty cells. \<open>keeps m\<close> says that an evaluation \<open>m\<close> changes the workbook by growth
  only.
\<close>


definition padded :: "row \<Rightarrow> row \<Rightarrow> bool" where
  "padded rw rw' = (\<exists>k. rw' = rw @ replicate k (Some empty_cell))"

definition grown_rows :: "row list \<Rightarrow> row list \<Rightarrow> bool" where
  "grown_rows rws rws' =
     (length rws \<le> length rws' \<and>
      (\<forall>r. r < length rws' \<longrightarrow> padded (if r < length rws then rws ! r else []) (rws' ! r)))"

definition grown :: "Workbook \<Rightarrow> Workbook \<Rightarrow> bool" where
  "grown wb wb' =
     (events wb' = events wb \<and> checkpoints wb' = checkpoints wb \<and> store wb' = store wb \<and>
      map fst (sheets wb') = map fst (sheets wb) \<and>
      (\<forall>nm s. map_of (sheets wb) nm = Some s \<longrightarrow>
         (\<exists>s'. map_of (sheets wb') nm = Some s' \<and> name s' = name s \<and>
               grown_rows (rows s) (rows s'))))"

definition keeps :: "'a eval \<Rightarrow> bool" where
  "keeps m = (\<forall>wb seen res wb' seen'. m (wb, seen) = Some (res, wb', seen') \<longrightarrow> grown wb wb')"

section \<open>Frames of the sheet operations\<close>

text \<open>
  The loop of \<open>setValues\<close> runs over the rows and columns of the values array, not over
  the range: row \<open>r\<close> and column \<open>c\<close> of the values are written to row \<open>r1 + r\<close> and
  column \<open>c1 + c\<close>. \<open>write_row\<close> and \<open>write_rows\<close> name the two bodies of that loop and
  \<open>footprint\<close> is the set of positions they write.
\<close>

definition write_row :: "nat \<Rightarrow> nat \<Rightarrow> CellProvenance list option \<Rightarrow> nat \<times> val
    \<Rightarrow> row list \<times> heap \<Rightarrow> (error + unit) \<times> row list \<times> heap" where
  "write_row rr cb prov = (\<lambda>(c, v). write_value rr (cb + c) v prov)"

definition write_rows :: "nat \<Rightarrow> nat \<Rightarrow> CellProvenance list option \<Rightarrow> nat \<times> val list
    \<Rightarrow> row list \<times> heap \<Rightarrow> (error + unit) \<times> row list \<times> heap" where
  "write_rows rb cb prov = (\<lambda>(r, vs). for_each (write_row (rb + r) cb prov) (enumerate 0 vs))"

definition footprint :: "nat \<Rightarrow> nat \<Rightarrow> nat \<Rightarrow> val list list \<Rightarrow> (nat \<times> nat) set" where
  "footprint rb cb n vals = {(rb + n + i, cb + j) | i j. i < length vals \<and> j < length (vals ! i)}"

text \<open>
  \<open>same_but W s s'\<close>: the loop took the rows and the store from \<open>s\<close> to \<open>s'\<close>, arrays were
  only added to the store, and no position outside \<open>W\<close> changed. \<open>stamped prov h cl\<close>: the
  cell carries a fresh copy of the provenance argument.
\<close>

definition same_but :: "(nat \<times> nat) set \<Rightarrow> row list \<times> heap \<Rightarrow> row list \<times> heap \<Rightarrow> bool" where
  "same_but W s s' =
     (prefix (snd s) (snd s') \<and> (\<forall>r c. (r, c) \<notin> W \<longrightarrow> slot (fst s') r c = slot (fst s) r c))"

definition stamped :: "CellProvenance list option \<Rightarrow> heap \<Rightarrow> Cell \<Rightarrow> bool" where
  "stamped prov h cl =
     (case prov of
        None \<Rightarrow> True
      | Some ps \<Rightarrow> (\<exists>a. provenance cl = Some a \<and> a < length h \<and> h ! a = ps))"

text \<open>
  What a reader of a cell sees: its value, formula, format and the provenance records its
  array holds. \<open>heap_ok\<close> says that every provenance array a cell refers to is in the store.
\<close>

definition cell_view ::
  "Workbook \<Rightarrow> string \<Rightarrow> nat \<Rightarrow> nat \<Rightarrow> val \<times> string option \<times> string option \<times> CellProvenance list option" where
  "cell_view wb nm r c =
     (let cl = copy_cell (cell_at wb nm r c)
      in (cell_value cl, formula cl, format cl, prov_list wb cl))"

definition heap_ok :: "Workbook \<Rightarrow> bool" where
  "heap_ok wb =
     list_all (\<lambda>(k, s). list_all (list_all (\<lambda>sl.
        case sl of
          None \<Rightarrow> True
        | Some cl \<Rightarrow> (case provenance cl of None \<Rightarrow> True | Some a \<Rightarrow> a < length (store wb))))
        (rows s)) (sheets wb)"

text \<open>
  \<open>frame nm W wb wb'\<close>: outside the positions \<open>W\<close> of sheet \<open>nm\<close> every cell is the same cell
  (compared as copies; a hole reads as the empty cell), and arrays were only added to the store.
\<close>

definition frame :: "string \<Rightarrow> (nat \<times> nat) set \<Rightarrow> Workbook \<Rightarrow> Workbook \<Rightarrow> bool" where
  "frame nm W wb wb' =
     (prefix (store wb) (store wb') \<and>
      (\<forall>nm' r c. \<not> (nm' = nm \<and> (r, c) \<in> W) \<longrightarrow>
         copy_cell (cell_at wb' nm' r c) = copy_cell (cell_at wb nm' r c)))"

definition framing :: "string \<Rightarrow> (nat \<times> nat) set \<Rightarrow> 'a action \<Rightarrow> bool" where
  "framing nm W m = (\<forall>wb res wb'. m wb = (res, wb') \<longrightarrow> frame nm W wb wb')"

text \<open>
  The provenance records of a cell, and the relation "every cell that existed exists and its
  records are a prefix of its records now".
\<close>

definition entries :: "heap \<Rightarrow> Cell \<Rightarrow> CellProvenance list" where
  "entries h cl = (case provenance cl of None \<Rightarrow> [] | Some a \<Rightarrow> deref h a)"

definition kept_rows :: "row list \<times> heap \<Rightarrow> row list \<times> heap \<Rightarrow> bool" where
  "kept_rows s s' =
     ((\<forall>a. prefix (deref (snd s) a) (deref (snd s') a)) \<and>
      (\<forall>r c cl. slot (fst s) r c = Some cl \<longrightarrow>
         (\<exists>cl'. slot (fst s') r c = Some cl' \<and> prefix (entries (snd s) cl) (entries (snd s') cl'))))"

definition provenance_kept :: "Workbook \<Rightarrow> Workbook \<Rightarrow> bool" where
  "provenance_kept wb wb' =
     ((\<forall>a. prefix (deref (store wb) a) (deref (store wb') a)) \<and>
      (\<forall>nm r c cl. cell_at wb nm r c = Some cl \<longrightarrow>
         (\<exists>cl'. cell_at wb' nm r c = Some cl' \<and>
               prefix (entries (store wb) cl) (entries (store wb') cl'))))"

definition keeping :: "'a action \<Rightarrow> bool" where
  "keeping m = (\<forall>wb res wb'. m wb = (res, wb') \<longrightarrow> provenance_kept wb wb')"

text \<open>A 2x2 grid of formulas, and a row of two values with provenance.\<close>

definition wb_grid :: Workbook where
  "wb_grid = snd (setFormulas \<lparr>sheet = ''Sheet1'', r1 = 0, c1 = 0, r2 = 1, c2 = 1\<rparr>
                    [[Some ''=1'', Some ''=2''], [Some ''=3'', Some ''=4'']] new_workbook)"

definition wb_two :: Workbook where
  "wb_two = snd (setValues \<lparr>sheet = ''Sheet1'', r1 = 0, c1 = 0, r2 = 0, c2 = 1\<rparr>
                   [[VNum (Fin 1), VNum (Fin 2)]] (Some [prov_a]) new_workbook)"

section \<open>Properties of the A1 conversion\<close>

declare show_nat.simps [simp del]
declare colLetters.simps [simp del]

lemma is_digit_char_of: "(d::nat) < 10 \<Longrightarrow> is_digit (char_of (48 + d))"
  by (simp add: is_digit_def)


lemma show_nat_digits: "list_all is_digit (show_nat n)"
proof (induction n rule: show_nat.induct)
  case (1 n)
  show ?case
  proof (cases "n < 10")
    case True
    then show ?thesis by (subst show_nat.simps) (simp add: is_digit_char_of)
  next
    case False
    with 1 show ?thesis
      by (subst show_nat.simps) (simp add: is_digit_char_of)
  qed
qed

lemma show_nat_nonempty: "show_nat n \<noteq> []"
  by (subst show_nat.simps) simp

lemma parseInt_snoc:
  "parseInt (ds @ [ch]) = parseInt ds * 10 + ((of_char ch :: nat) - 48)"
  by (simp add: parseInt_def)

lemma parseInt_show_nat: "parseInt (show_nat n) = n"
proof (induction n rule: show_nat.induct)
  case (1 n)
  show ?case
  proof (cases "n < 10")
    case True
    then show ?thesis by (subst show_nat.simps) (simp add: parseInt_def)
  next
    case False
    then have "parseInt (show_nat (n div 10)) = n div 10" using 1 by simp
    with False show ?thesis
      by (subst show_nat.simps) (simp add: parseInt_snoc)
  qed
qed

















section \<open>Structural errors\<close>


lemma new_workbook_eq:
  "new_workbook =
     \<lparr>sheets = [(''Sheet1'', \<lparr>name = ''Sheet1'', rows = []\<rparr>)],
      checkpoints = [\<lparr>cp_id = Some ''init'', atEvent = 1\<rparr>],
      events = [\<lparr>ev_op = ''createSheet'', inverse = DeleteSheet ''Sheet1'',
                 summary = ''create Sheet1''\<rparr>],
      store = []\<rparr>"
  by (simp add: new_workbook_def createSheet_def appendEvent_def checkpoint_def)

text \<open>
  Claim C9. \<open>createSheet\<close> with a name that exists, \<open>deleteSheet\<close> with a name that
  does not, and the dispatch of an operation name outside the vocabulary when not in
  internal mode each return an error to the caller and leave the workbook as it was:
  sheets, checkpoints, events and store.
\<close>


theorem structural_errors_leave_workbook:
  "(map_of (sheets wb) nm \<noteq> None \<longrightarrow>
      createSheet nm wb = (Inl SheetExists, wb) \<and>
      dispatch (CreateSheet nm) internal wb = (Inl SheetExists, wb)) \<and>
   (map_of (sheets wb) nm' = None \<longrightarrow>
      deleteSheet nm' wb = (Inl (SheetNotFound nm'), wb) \<and>
      dispatch (DeleteSheet nm') internal wb = (Inl (SheetNotFound nm'), wb)) \<and>
   dispatch (Other n) False wb = (Inl (UnknownOp n), wb)"
  by (simp add: createSheet_def deleteSheet_def andThen_def getSheet_def throw_def)

theorem structural_errors_leave_workbook_witness:
  "map_of (sheets new_workbook) ''Sheet1'' \<noteq> None \<and>
   createSheet ''Sheet1'' new_workbook = (Inl SheetExists, new_workbook) \<and>
   dispatch (CreateSheet ''Sheet1'') False new_workbook = (Inl SheetExists, new_workbook) \<and>
   map_of (sheets new_workbook) ''Data'' = None \<and>
   deleteSheet ''Data'' new_workbook = (Inl (SheetNotFound ''Data''), new_workbook) \<and>
   dispatch (DeleteSheet ''Data'') False new_workbook = (Inl (SheetNotFound ''Data''), new_workbook) \<and>
   dispatch (Other ''mergeCells'') False new_workbook = (Inl (UnknownOp ''mergeCells''), new_workbook)"
proof -
  have a: "map_of (sheets new_workbook) ''Sheet1'' \<noteq> None"
    by (simp add: new_workbook_eq)
  have b: "map_of (sheets new_workbook) ''Data'' = None"
    by (simp add: new_workbook_eq)
  show ?thesis
    using structural_errors_leave_workbook
      [of new_workbook "''Sheet1''" False "''Data''" "''mergeCells''"] a b
    by blast
qed



section \<open>The evaluator changes a workbook by growth only\<close>


lemma padded_refl: "padded rw rw"
  unfolding padded_def by (rule exI [of _ 0]) simp

lemma padded_trans: "padded a b \<Longrightarrow> padded b c \<Longrightarrow> padded a c"
proof -
  assume "padded a b" "padded b c"
  then obtain k l where "b = a @ replicate k (Some empty_cell)" "c = b @ replicate l (Some empty_cell)"
    by (auto simp: padded_def)
  then have "c = a @ replicate (k + l) (Some empty_cell)"
    by (simp add: replicate_add)
  then show ?thesis unfolding padded_def by blast
qed

lemma grown_rows_refl: "grown_rows rws rws"
  by (simp add: grown_rows_def padded_refl)

lemma grown_rowsD:
  "grown_rows a b \<Longrightarrow> r < length b \<Longrightarrow> padded (if r < length a then a ! r else []) (b ! r)"
  by (simp add: grown_rows_def)

lemma grown_rows_length: "grown_rows a b \<Longrightarrow> length a \<le> length b"
  by (simp add: grown_rows_def)

lemma grown_rows_trans:
  assumes "grown_rows a b" "grown_rows b c"
  shows "grown_rows a c"
  unfolding grown_rows_def
proof (intro conjI allI impI)
  show "length a \<le> length c"
    using grown_rows_length [OF assms(1)] grown_rows_length [OF assms(2)] by simp
next
  fix r assume r: "r < length c"
  have bc: "padded (if r < length b then b ! r else []) (c ! r)"
    by (rule grown_rowsD [OF assms(2) r])
  show "padded (if r < length a then a ! r else []) (c ! r)"
  proof (cases "r < length b")
    case True
    have "padded (if r < length a then a ! r else []) (b ! r)"
      by (rule grown_rowsD [OF assms(1) True])
    moreover have "padded (b ! r) (c ! r)" using bc True by simp
    ultimately show ?thesis by (rule padded_trans)
  next
    case False
    moreover have "length a \<le> length b" by (rule grown_rows_length [OF assms(1)])
    ultimately show ?thesis using bc by simp
  qed
qed

lemma grown_rows_grow: "grown_rows rws (grow_rows n cols rws)"
  unfolding grown_rows_def grow_rows_def
proof (intro conjI allI impI)
  show "length rws \<le> length (map (pad_row cols) (rws @ replicate (n - length rws) []))" by simp
next
  fix r assume "r < length (map (pad_row cols) (rws @ replicate (n - length rws) []))"
  then have r: "r < length (rws @ replicate (n - length rws) [])" by simp
  have "(rws @ replicate (n - length rws) []) ! r = (if r < length rws then rws ! r else [])"
    using r by (auto simp: nth_append)
  then show "padded (if r < length rws then rws ! r else [])
          (map (pad_row cols) (rws @ replicate (n - length rws) []) ! r)"
    using r unfolding padded_def pad_row_def by (simp only: nth_map) blast
qed

lemma grown_refl: "grown wb wb"
  by (simp add: grown_def grown_rows_refl)

lemma grown_sheetD:
  "grown wb wb' \<Longrightarrow> map_of (sheets wb) nm = Some s \<Longrightarrow>
   \<exists>s'. map_of (sheets wb') nm = Some s' \<and> name s' = name s \<and> grown_rows (rows s) (rows s')"
  by (simp add: grown_def)

lemma grown_noneD:
  assumes "grown wb wb'" "map_of (sheets wb) nm = None"
  shows "map_of (sheets wb') nm = None"
proof -
  have "map fst (sheets wb') = map fst (sheets wb)" using assms(1) by (simp add: grown_def)
  then have "fst ` set (sheets wb') = fst ` set (sheets wb)" by (metis set_map)
  then show ?thesis using assms(2) by (simp add: map_of_eq_None_iff)
qed

lemma grown_trans:
  assumes "grown a b" "grown b c"
  shows "grown a c"
  unfolding grown_def
proof (intro conjI allI impI)
  fix nm s assume "map_of (sheets a) nm = Some s"
  from grown_sheetD [OF assms(1) this]
  obtain s' where s': "map_of (sheets b) nm = Some s'" "name s' = name s" "grown_rows (rows s) (rows s')"
    by blast
  from grown_sheetD [OF assms(2) s'(1)]
  obtain s'' where "map_of (sheets c) nm = Some s''" "name s'' = name s'" "grown_rows (rows s') (rows s'')"
    by blast
  with s' show "\<exists>s'. map_of (sheets c) nm = Some s' \<and> name s' = name s \<and> grown_rows (rows s) (rows s')"
    by (auto intro: grown_rows_trans)
qed (use assms in \<open>simp_all add: grown_def\<close>)

lemma map_fst_map_entry: "map fst (AList.map_entry k f xs) = map fst xs"
  by (induction xs) auto

lemma grown_set_rows:
  assumes "map_of (sheets wb) nm = Some s" "grown_rows (rows s) rws"
  shows "grown wb (set_rows nm rws wb)"
  using assms
  by (auto simp: grown_def set_rows_def map_fst_map_entry map_of_map_entry grown_rows_refl)

lemma ensureSize_grown: "ensureSize nm n cols wb = (res, wb') \<Longrightarrow> grown wb wb'"
  by (auto simp: ensureSize_def on_sheet_def andThen_def getSheet_def grown_refl
      intro!: grown_set_rows grown_rows_grow split: option.splits)

lemma getCell_grown: "getCell sh r c wb = (res, wb') \<Longrightarrow> grown wb wb'"
  by (auto simp: getCell_def andThen_def getSheet_def throw_def ret_def
      dest: ensureSize_grown split: option.splits prod.splits sum.splits if_splits)

lemma padded_js_at: "padded rw rw' \<Longrightarrow> js_at rw c = Some cl \<Longrightarrow> js_at rw' c = Some cl"
  by (auto simp: padded_def js_at_def nth_append split: if_splits)

lemma padded_copy: "padded rw rw' \<Longrightarrow> copy_cell (js_at rw' c) = copy_cell (js_at rw c)"
  by (auto simp: padded_def js_at_def nth_append copy_cell_def)

lemma grown_rows_slot:
  assumes "grown_rows rws rws'" "slot rws r c = Some cl"
  shows "slot rws' r c = Some cl"
proof -
  have r: "r < length rws" and at: "js_at (rws ! r) c = Some cl"
    using assms(2) by (auto simp: slot_def split: if_splits)
  have r': "r < length rws'" using r grown_rows_length [OF assms(1)] by simp
  have "padded (rws ! r) (rws' ! r)" using grown_rowsD [OF assms(1) r'] r by simp
  from padded_js_at [OF this at] r' show ?thesis by (simp add: slot_def)
qed

lemma grown_rows_copy:
  assumes "grown_rows rws rws'"
  shows "copy_cell (slot rws' r c) = copy_cell (slot rws r c)"
proof (cases "r < length rws'")
  case True
  from padded_copy [OF grown_rowsD [OF assms True], of c] True show ?thesis
    by (auto simp: slot_def js_at_def copy_cell_def)
next
  case False
  moreover have "length rws \<le> length rws'" by (rule grown_rows_length [OF assms])
  ultimately show ?thesis by (simp add: slot_def)
qed

lemma grown_cell_at:
  assumes "grown wb wb'" "cell_at wb nm r c = Some cl"
  shows "cell_at wb' nm r c = Some cl"
proof -
  obtain s where s: "map_of (sheets wb) nm = Some s" "slot (rows s) r c = Some cl"
    using assms(2) by (auto simp: cell_at_def split: option.splits)
  from grown_sheetD [OF assms(1) s(1)] obtain s' where
    "map_of (sheets wb') nm = Some s'" "grown_rows (rows s) (rows s')" by blast
  with grown_rows_slot [OF this(2) s(2)] show ?thesis by (simp add: cell_at_def)
qed

lemma grown_copy:
  assumes "grown wb wb'"
  shows "copy_cell (cell_at wb' nm r c) = copy_cell (cell_at wb nm r c)"
proof (cases "map_of (sheets wb) nm")
  case None
  with grown_noneD [OF assms None] show ?thesis by (simp add: cell_at_def)
next
  case (Some s)
  from grown_sheetD [OF assms Some] obtain s' where
    "map_of (sheets wb') nm = Some s'" "grown_rows (rows s) (rows s')" by blast
  with grown_rows_copy [OF this(2)] Some show ?thesis by (simp add: cell_at_def)
qed


lemma keepsI: "(\<And>wb seen res wb' seen'. m (wb, seen) = Some (res, wb', seen') \<Longrightarrow> grown wb wb') \<Longrightarrow> keeps m"
  by (simp add: keeps_def)

lemma keepsD: "keeps m \<Longrightarrow> m (wb, seen) = Some (res, wb', seen') \<Longrightarrow> grown wb wb'"
  unfolding keeps_def by blast

lemma keeps_eret: "keeps (eret x)"
  by (simp add: keeps_def eret_def grown_refl)

lemma keeps_fail: "keeps (\<lambda>st. Some (Inl e, st))"
  by (simp add: keeps_def grown_refl)

lemma keeps_none: "keeps (\<lambda>st. None)"
  by (simp add: keeps_def)

lemma keeps_ebind:
  assumes "keeps m" "\<And>x. keeps (f x)"
  shows "keeps (ebind m f)"
proof (rule keepsI)
  fix wb seen res wb' seen'
  assume run: "ebind m f (wb, seen) = Some (res, wb', seen')"
  show "grown wb wb'"
  proof (cases "m (wb, seen)")
    case None
    with run show ?thesis by (simp add: ebind_def)
  next
    case (Some p)
    obtain r1 wb1 seen1 where p: "p = (r1, wb1, seen1)" by (cases p) auto
    have g1: "grown wb wb1" using keepsD [OF assms(1)] Some p by simp
    show ?thesis
    proof (cases r1)
      case (Inl e)
      with run Some p g1 show ?thesis by (simp add: ebind_def)
    next
      case (Inr x)
      with run Some p have "f x (wb1, seen1) = Some (res, wb', seen')" by (simp add: ebind_def)
      from keepsD [OF assms(2) this] g1 show ?thesis by (blast intro: grown_trans)
    qed
  qed
qed

lemma keeps_emap: "(\<And>x. keeps (f x)) \<Longrightarrow> keeps (emap f xs)"
  by (induction xs) (auto intro!: keeps_eret keeps_ebind)

lemma keeps_efold: "(\<And>x a. keeps (f x a)) \<Longrightarrow> keeps (efold f xs a)"
  by (induction xs arbitrary: a) (auto intro!: keeps_eret keeps_ebind)

lemma keeps_evalRef: "(\<And>s r c. keeps (ev s r c)) \<Longrightarrow> keeps (evalRef ev rt sh a1)"
  by (auto simp: evalRef_def intro!: keeps_fail keeps_ebind keeps_eret split: sum.splits)

lemma keeps_sumRange: "(\<And>s r c. keeps (ev s r c)) \<Longrightarrow> keeps (sumRange ev rt sh a1range)"
  by (auto simp: sumRange_def Let_def
      intro!: keeps_fail keeps_ebind keeps_eret keeps_efold split: sum.splits option.splits)

lemma keeps_sumTerm: "(\<And>s r c. keeps (ev s r c)) \<Longrightarrow> keeps (sumTerm ev rt sh t)"
  by (auto simp: sumTerm_def Let_def intro!: keeps_sumRange keeps_evalRef keeps_eret)

lemma keeps_sumArgs: "(\<And>s r c. keeps (ev s r c)) \<Longrightarrow> keeps (sumArgs ev rt sh args)"
  by (auto simp: sumArgs_def intro!: keeps_ebind keeps_emap keeps_sumTerm keeps_eret)

lemma keeps_replace_pieces: "(\<And>m. keeps (callback m)) \<Longrightarrow> keeps (replace_pieces callback rt ps)"
  by (auto simp: replace_pieces_def intro!: keeps_ebind keeps_emap keeps_eret split: piece.splits)

lemma keeps_run_formula: "keeps (run_formula rt expr)"
  by (auto simp: run_formula_def intro!: keeps_eret keeps_none
      split: js_run.splits jsvalue.splits option.splits)

lemma keeps_evaluateCell: "keeps (evaluateCell k rt sh r c)"
proof (induction k arbitrary: sh r c)
  case 0
  show ?case by (simp add: keeps_none)
next
  case (Suc k)
  let ?key = "cell_key sh r c"
  show ?case
  proof (rule keepsI)
    fix wb seen res wb' seen'
    assume run: "evaluateCell (Suc k) rt sh r c (wb, seen) = Some (res, wb', seen')"
    show "grown wb wb'"
    proof (cases "?key \<in> seen")
      case True
      with run show ?thesis by (simp add: grown_refl)
    next
      case False
      obtain gres wb1 where g: "getCell sh r c wb = (gres, wb1)" by (cases "getCell sh r c wb") auto
      have g1: "grown wb wb1" by (rule getCell_grown [OF g])
      let ?body = "\<lambda>f. ebind (replace_pieces (sumArgs (evaluateCell k rt) rt sh) rt (sum_pieces (tl f)))
             (\<lambda>expr1. ebind (replace_pieces (evalRef (evaluateCell k rt) rt sh) rt (ref_pieces [] expr1))
                 (\<lambda>expr2. run_formula rt expr2))"
      have kb: "keeps (?body f)" for f
        by (intro keeps_ebind keeps_replace_pieces keeps_sumArgs keeps_evalRef keeps_run_formula Suc.IH)
      show ?thesis
      proof (cases "\<exists>cl ftext. gres = Inr (Some cl) \<and> formula cl = Some ftext \<and> ftext \<noteq> []
                \<and> trim ftext \<noteq> [] \<and> hd (trim ftext) = CHR ''=''")
        case True
        then obtain cl ftext where "gres = Inr (Some cl)" "formula cl = Some ftext" "ftext \<noteq> []"
          "trim ftext \<noteq> []" "hd (trim ftext) = CHR ''=''" by blast
        with run False g have "?body (trim ftext) (wb1, insert ?key seen) = Some (res, wb', seen')"
          by (simp add: Let_def)
        from keepsD [OF kb this] g1 show ?thesis by (blast intro: grown_trans)
      next
        case no: False
        have "wb' = wb1"
          using run False g no
          by (auto simp: Let_def split: sum.splits option.splits if_splits)
        with g1 show ?thesis by simp
      qed
    qed
  qed
qed




text \<open>
  Claim C6, as amended. An evaluation does not leave the workbook exactly as it was:
  \<open>getCell\<close> calls \<open>ensureSize\<close>, so a reference to a cell outside the grid grows the
  sheet. What holds is that an evaluation changes the workbook by such growth only: the
  events, the checkpoints, the provenance store and the sheet names stay, every cell that
  was there is still there with the same value, formula, format and provenance, and every
  position reads as before when an absent cell is read as an empty one.
\<close>

theorem evaluateCell_only_grows:
  assumes "evaluateCell k rt sh r c (wb, seen) = Some (res, wb', seen')"
  shows "events wb' = events wb \<and> checkpoints wb' = checkpoints wb \<and> store wb' = store wb \<and>
         map fst (sheets wb') = map fst (sheets wb) \<and>
         (\<forall>nm r' c' cl. cell_at wb nm r' c' = Some cl \<longrightarrow> cell_at wb' nm r' c' = Some cl) \<and>
         (\<forall>nm r' c'. copy_cell (cell_at wb' nm r' c') = copy_cell (cell_at wb nm r' c')) \<and>
         grown wb wb'"
proof -
  have g: "grown wb wb'" by (rule keepsD [OF keeps_evaluateCell assms])
  then show ?thesis
    by (auto simp: grown_copy intro: grown_cell_at) (simp_all add: grown_def)
qed

lemma wb_ref_b3_returns: "evaluateCell 2 rt_int ''Sheet1'' 0 0 (wb_ref_b3, {}) \<noteq> None"
  by code_simp

lemma wb_ref_b3_A1:
  "cell_at wb_ref_b3 ''Sheet1'' 0 0 =
     Some \<lparr>cell_value = VNull, formula = Some ''=B3'', provenance = None, format = None\<rparr>"
  by code_simp

theorem evaluateCell_only_grows_witness:
  "evaluateCell 2 rt_int ''Sheet1'' 0 0 (wb_ref_b3, {}) \<noteq> None \<and>
   events (fst (snd (the (evaluateCell 2 rt_int ''Sheet1'' 0 0 (wb_ref_b3, {}))))) = events wb_ref_b3 \<and>
   store (fst (snd (the (evaluateCell 2 rt_int ''Sheet1'' 0 0 (wb_ref_b3, {}))))) = store wb_ref_b3 \<and>
   cell_at (fst (snd (the (evaluateCell 2 rt_int ''Sheet1'' 0 0 (wb_ref_b3, {}))))) ''Sheet1'' 0 0 =
     Some \<lparr>cell_value = VNull, formula = Some ''=B3'', provenance = None, format = None\<rparr>"
proof -
  let ?x = "evaluateCell 2 rt_int ''Sheet1'' 0 0 (wb_ref_b3, {})"
  obtain res wb' seen' where x: "?x = Some (res, wb', seen')"
    using wb_ref_b3_returns by (cases ?x) auto
  from evaluateCell_only_grows [OF x] wb_ref_b3_A1 x wb_ref_b3_returns
  show ?thesis by simp
qed

text \<open>
  The claim as stated fails: evaluating \<open>A1 = "=B3"\<close> on a sheet of one row and one
  cell leaves a sheet of three rows of two cells.
\<close>

theorem evaluateCell_grows_sheet:
  "map (\<lambda>(k, s). map length (rows s)) (sheets wb_ref_b3) = [[1]] \<and>
   map_option (\<lambda>(res, wb', seen'). map (\<lambda>(k, s). map length (rows s)) (sheets wb'))
     (evaluateCell 2 rt_int ''Sheet1'' 0 0 (wb_ref_b3, {})) = Some [[2, 2, 2]]"
  by code_simp

section \<open>A self-reference\<close>

declare sum_pieces.simps [simp del]
declare ref_pieces.simps [simp del]

lemma getCell_existing:
  assumes "cell_at wb sh r c = Some cl"
  shows "\<exists>wb'. getCell sh (int r) (int c) wb = (Inr (Some cl), wb') \<and> grown wb wb'"
proof -
  obtain gres wb' where g: "getCell sh (int r) (int c) wb = (gres, wb')"
    by (cases "getCell sh (int r) (int c) wb") auto
  have gr: "grown wb wb'" by (rule getCell_grown [OF g])
  obtain s where s: "map_of (sheets wb) sh = Some s" "slot (rows s) r c = Some cl"
    using assms by (auto simp: cell_at_def split: option.splits)
  from grown_sheetD [OF gr s(1)] obtain s' where
    s': "map_of (sheets wb') sh = Some s'" "grown_rows (rows s) (rows s')" by blast
  have sl: "slot (rows s') r c = Some cl" by (rule grown_rows_slot [OF s'(2) s(2)])
  then have r: "r < length (rows s')" by (auto simp: slot_def split: if_splits)
  obtain wb1 where e: "ensureSize sh (nat (int r + 1)) (nat (int c + 1)) wb = (Inr (), wb1)"
    using s(1) by (auto simp: ensureSize_def on_sheet_def andThen_def getSheet_def)
  have "wb' = wb1" and "gres = Inr (if int c < 0 then None else js_at (rows s' ! nat (int r)) (nat (int c)))"
    using g e s' r
    by (auto simp: getCell_def andThen_def getSheet_def throw_def ret_def split: option.splits if_splits)
  then have "gres = Inr (Some cl)" using sl r by (simp add: slot_def)
  with g gr show ?thesis by blast
qed

lemma evaluateCell_literal:
  assumes "cell_at wb sh r c = Some cl" "formula cl = None"
    and "cell_key sh (int r) (int c) \<notin> seen"
  shows "\<exists>wb'. evaluateCell (Suc k) rt sh (int r) (int c) (wb, seen) =
           Some (Inr (cell_value cl), wb', insert (cell_key sh (int r) (int c)) seen)
         \<and> grown wb wb'"
proof -
  from getCell_existing [OF assms(1)] obtain wb' where
    "getCell sh (int r) (int c) wb = (Inr (Some cl), wb')" "grown wb wb'" by blast
  then show ?thesis using assms(2,3) by (simp add: Let_def)
qed

lemma show_int_0: "show_int 0 = ''0''" by code_simp
lemma show_int_1: "show_int 1 = ''1''" by code_simp
lemma show_int_2: "show_int 2 = ''2''" by code_simp
lemma show_int_3: "show_int 3 = ''3''" by code_simp
lemma a1ToRc_A1: "a1ToRc ''A1'' = Inr (0, 0)" by code_simp
lemma a1ToRc_A3: "a1ToRc ''A3'' = Inr (2, 0)" by code_simp
lemma trim_selfref: "trim ''=A1+1'' = ''=A1+1''" by code_simp
lemma sum_pieces_selfref: "sum_pieces ''A1+1'' = [Text ''A'', Text ''1'', Text ''+'', Text ''1'']" by code_simp
lemma ref_pieces_selfref: "ref_pieces [] ''A1+1'' = [Match ''A1'', Text ''+'', Text ''1'']" by code_simp

text \<open>
  Claim C2, as amended. The evaluation of a cell \<open>A1\<close> that holds \<open>=A1+1\<close> returns: the
  nested evaluation of the reference \<open>A1\<close> finds the key of the cell in \<open>seen\<close> and
  returns \<open>#REF!\<close>; \<open>evalRef\<close> turns that text into the number 0; the cell evaluates to
  what the runtime makes of \<open>0+1\<close>, the number 1, and not to \<open>#REF!\<close>. The hypotheses
  on the runtime are facts of JavaScript: \<open>Number("#REF!")\<close> is NaN, \<open>String(0)\<close> is
  \<open>"0"\<close>, and \<open>0+1\<close> evaluates to 1.
\<close>

theorem self_reference_evaluates_to_number:
  assumes cell: "cell_at wb sh 0 0 = Some cl" "formula cl = Some ''=A1+1''"
    and rt: "to_number rt ''#REF!'' = NaN" "num_to_string rt (Fin 0) = ''0''"
            "run_expr rt ''0+1'' = Returns (JNum (Fin 1))"
  shows "map_option fst (evaluateCell (Suc (Suc k)) rt sh 0 0 (wb, {})) = Some (Inr (VNum (Fin 1))) \<and>
         (\<forall>wb1. evaluateCell (Suc k) rt sh 0 0 (wb1, {sh @ '':0:0''}) =
                  Some (Inr (VStr ''#REF!''), wb1, {sh @ '':0:0''}))"
proof -
  let ?key = "sh @ '':0:0''"
  have key: "cell_key sh 0 0 = ?key"
    by (simp add: cell_key_def show_int_0)
  have inner: "evaluateCell (Suc k) rt sh 0 0 (wb1, {?key}) = Some (Inr (VStr ''#REF!''), wb1, {?key})" for wb1
    by (simp add: key)
  from getCell_existing [OF cell(1)] obtain wb' where
    g: "getCell sh 0 0 wb = (Inr (Some cl), wb')" by auto
  have ref: "evalRef (evaluateCell (Suc k) rt) rt sh ''A1'' (wb', {?key}) = Some (Inr (Fin 0), wb', {?key})"
    using inner [of wb'] rt(1)
    by (simp add: evalRef_def a1ToRc_A1 ebind_def eret_def isNaN_def del: evaluateCell.simps)
  have s1: "replace_pieces (sumArgs (evaluateCell (Suc k) rt) rt sh) rt (sum_pieces ''A1+1'') (wb', {?key})
            = Some (Inr ''A1+1'', wb', {?key})"
    by (simp add: sum_pieces_selfref replace_pieces_def ebind_def eret_def)
  have s2: "replace_pieces (evalRef (evaluateCell (Suc k) rt) rt sh) rt (ref_pieces [] ''A1+1'') (wb', {?key})
            = Some (Inr ''0+1'', wb', {?key})"
    using ref rt(2) by (simp add: ref_pieces_selfref replace_pieces_def ebind_def eret_def)
  have s3: "run_formula rt ''0+1'' (wb', {?key}) = Some (Inr (VNum (Fin 1)), wb', {?key})"
    using rt(3) by (simp add: run_formula_def eret_def)
  have "evaluateCell (Suc (Suc k)) rt sh 0 0 (wb, {}) = Some (Inr (VNum (Fin 1)), wb', {?key})"
    using g cell(2) s1 s2 s3
    by (simp add: key Let_def trim_selfref ebind_def)
  with inner show ?thesis by simp
qed

lemma wb_selfref_A1:
  "cell_at wb_selfref ''Sheet1'' 0 0 =
     Some \<lparr>cell_value = VNull, formula = Some ''=A1+1'', provenance = None, format = None\<rparr>"
  by code_simp

lemma rt_int_ref_error: "to_number rt_int ''#REF!'' = NaN"
  by code_simp

lemma rt_int_zero: "num_to_string rt_int (Fin 0) = ''0''"
  by code_simp

lemma rt_int_zero_plus_one: "run_expr rt_int ''0+1'' = Returns (JNum (Fin 1))"
  by code_simp

theorem self_reference_evaluates_to_number_witness:
  "cell_at wb_selfref ''Sheet1'' 0 0 =
     Some \<lparr>cell_value = VNull, formula = Some ''=A1+1'', provenance = None, format = None\<rparr> \<and>
   to_number rt_int ''#REF!'' = NaN \<and> num_to_string rt_int (Fin 0) = ''0'' \<and>
   run_expr rt_int ''0+1'' = Returns (JNum (Fin 1)) \<and>
   map_option fst (evaluateCell (Suc (Suc 0)) rt_int ''Sheet1'' 0 0 (wb_selfref, {})) =
     Some (Inr (VNum (Fin 1)))"
  using self_reference_evaluates_to_number
    [OF wb_selfref_A1 _ rt_int_ref_error rt_int_zero rt_int_zero_plus_one, of 0]
    wb_selfref_A1 rt_int_ref_error rt_int_zero rt_int_zero_plus_one
  by simp

text \<open>The claim as stated fails: the result at this cell is not \<open>#REF!\<close>.\<close>

theorem self_reference_not_ref_error:
  "map_option fst (evaluateCell 2 rt_int ''Sheet1'' 0 0 (wb_selfref, {})) \<noteq> Some (Inr (VStr ''#REF!''))"
  by code_simp

section \<open>Keys of cells\<close>

lemma show_nat_inj: "show_nat a = show_nat b \<Longrightarrow> a = b"
  by (metis parseInt_show_nat)

lemma digit_not_colon: "is_digit ch \<Longrightarrow> ch \<noteq> CHR '':''"
  by (auto simp: is_digit_def)

lemma digit_not_minus: "is_digit ch \<Longrightarrow> ch \<noteq> CHR ''-''"
  by (auto simp: is_digit_def)

lemma show_nat_no_colon: "CHR '':'' \<notin> set (show_nat n)"
  using show_nat_digits [of n] by (auto simp: list_all_iff dest: digit_not_colon)

lemma show_nat_hd_digit: "is_digit (hd (show_nat n))"
  using show_nat_digits [of n] show_nat_nonempty [of n]
  by (cases "show_nat n") auto

lemma show_int_no_colon: "CHR '':'' \<notin> set (show_int i)"
  by (simp add: show_int_def show_nat_no_colon)

lemma show_int_inj: "show_int a = show_int b \<Longrightarrow> a = b"
proof -
  assume eq: "show_int a = show_int b"
  have neg: "hd (show_int i) = CHR ''-'' \<longleftrightarrow> i < 0" for i
    using show_nat_hd_digit [of "nat i"] by (auto simp: show_int_def dest: digit_not_minus)
  show ?thesis
  proof (cases "a < 0")
    case True
    then have "b < 0" using neg [of a] neg [of b] eq by simp
    with True eq have "nat (- a) = nat (- b)" by (auto simp: show_int_def dest: show_nat_inj)
    with True \<open>b < 0\<close> show ?thesis by simp
  next
    case False
    then have "\<not> b < 0" using neg [of a] neg [of b] eq by simp
    with False eq have "nat a = nat b" by (auto simp: show_int_def dest: show_nat_inj)
    with False \<open>\<not> b < 0\<close> show ?thesis by simp
  qed
qed

lemma takeWhile_until: "x \<notin> set xs \<Longrightarrow> takeWhile (\<lambda>ch. ch \<noteq> x) (xs @ x # ys) = xs"
  by (induction xs) auto

lemma dropWhile_until: "x \<notin> set xs \<Longrightarrow> dropWhile (\<lambda>ch. ch \<noteq> x) (xs @ x # ys) = x # ys"
  by (induction xs) auto

lemma split_at_colon:
  assumes "xs @ CHR '':'' # ys = xs' @ CHR '':'' # ys'"
    and "CHR '':'' \<notin> set xs" "CHR '':'' \<notin> set xs'"
  shows "xs = xs' \<and> ys = ys'"
proof -
  have "xs = takeWhile (\<lambda>ch. ch \<noteq> CHR '':'') (xs @ CHR '':'' # ys)"
    using assms(2) by (simp add: takeWhile_until)
  also have "\<dots> = xs'"
    unfolding assms(1) using assms(3) by (simp add: takeWhile_until)
  finally have "xs = xs'" .
  with assms(1) show ?thesis by simp
qed

lemma cell_key_inj: "cell_key sh r c = cell_key sh r' c' \<Longrightarrow> r = r' \<and> c = c'"
proof -
  assume "cell_key sh r c = cell_key sh r' c'"
  then have "show_int r @ CHR '':'' # show_int c = show_int r' @ CHR '':'' # show_int c'"
    by (simp add: cell_key_def)
  from split_at_colon [OF this show_int_no_colon show_int_no_colon]
  show ?thesis by (auto dest: show_int_inj)
qed

section \<open>A sum over literal cells\<close>

lemma upto_0_2: "[0..(2::int)] = [0, 1, 2]" by code_simp
lemma match_range_A1_A3: "match_range ''A1:A3'' = Some (''A'', ''1'', ''A'', ''3'')" by code_simp
lemma split_A1_A3: "split_on CHR '','' ''A1:A3'' = [''A1:A3'']" by code_simp
lemma trim_A1_A3: "trim ''A1:A3'' = ''A1:A3''" by code_simp
lemma sum_pieces_sum: "sum_pieces ''SUM(A1:A3)'' = [Match ''A1:A3'']" by code_simp
lemma trim_sum: "trim ''=SUM(A1:A3)'' = ''=SUM(A1:A3)''" by code_simp
lemma ref_pieces_one: "ref_pieces [] ''1'' = [Text ''1'']" by code_simp

text \<open>
  Claim C7. A cell that holds \<open>=SUM(A1:A3)\<close>, where \<open>A1\<close>, \<open>A2\<close> and \<open>A3\<close> hold
  the literal values 1, \<open>"x"\<close> and \<open>null\<close>, evaluates to the number 1. The hypotheses
  on the runtime are facts of JavaScript: \<open>Number("x")\<close> is NaN, \<open>String(1)\<close> is
  \<open>"1"\<close>, and the text \<open>1\<close> evaluates to 1.
\<close>

theorem sum_of_mixed_cells:
  assumes a1: "cell_at wb sh 0 0 = Some ca" "cell_value ca = VNum (Fin 1)" "formula ca = None"
    and a2: "cell_at wb sh 1 0 = Some cb" "cell_value cb = VStr ''x''" "formula cb = None"
    and a3: "cell_at wb sh 2 0 = Some cc" "cell_value cc = VNull" "formula cc = None"
    and f: "cell_at wb sh r c = Some cf" "formula cf = Some ''=SUM(A1:A3)''"
    and rt: "to_number rt ''x'' = NaN" "num_to_string rt (Fin 1) = ''1''"
            "run_expr rt ''1'' = Returns (JNum (Fin 1))"
  shows "map_option fst (evaluateCell (Suc (Suc k)) rt sh (int r) (int c) (wb, {})) =
           Some (Inr (VNum (Fin 1)))"
proof -
  let ?ev = "evaluateCell (Suc k) rt"
  let ?kf = "cell_key sh (int r) (int c)"
  let ?k0 = "cell_key sh 0 0" and ?k1 = "cell_key sh 1 0" and ?k2 = "cell_key sh 2 0"
  have other: "cell_at wb sh r' 0 = Some cl \<Longrightarrow> formula cl = None \<Longrightarrow> ?kf \<noteq> cell_key sh (int r') 0"
    for r' cl
  proof
    assume cl: "cell_at wb sh r' 0 = Some cl" "formula cl = None"
      and "?kf = cell_key sh (int r') 0"
    then have "r = r'" "c = 0" by (auto dest: cell_key_inj)
    with f cl show False by simp
  qed
  have kne: "?k0 \<noteq> ?kf" "?k1 \<noteq> ?kf" "?k2 \<noteq> ?kf" "?k1 \<noteq> ?k0" "?k2 \<noteq> ?k0" "?k2 \<noteq> ?k1"
    using other [OF a1(1) a1(3)] other [OF a2(1) a2(3)] other [OF a3(1) a3(3)]
    by (auto dest: cell_key_inj)
  from getCell_existing [OF f(1)] obtain wb1 where
    g: "getCell sh (int r) (int c) wb = (Inr (Some cf), wb1)" and g1: "grown wb wb1" by blast
  have c0: "cell_at wb1 sh 0 0 = Some ca" by (rule grown_cell_at [OF g1 a1(1)])
  from evaluateCell_literal [OF c0 a1(3), of "{?kf}" k rt] kne obtain wb2 where
    e0: "?ev sh 0 0 (wb1, {?kf}) = Some (Inr (VNum (Fin 1)), wb2, {?k0, ?kf})" and g2: "grown wb1 wb2"
    using a1(2) by auto
  have c1: "cell_at wb2 sh 1 0 = Some cb"
    by (rule grown_cell_at [OF g2 grown_cell_at [OF g1 a2(1)]])
  from evaluateCell_literal [OF c1 a2(3), of "{?k0, ?kf}" k rt] kne obtain wb3 where
    e1: "?ev sh 1 0 (wb2, {?k0, ?kf}) = Some (Inr (VStr ''x''), wb3, {?k1, ?k0, ?kf})" and g3: "grown wb2 wb3"
    using a2(2) by auto
  have c2: "cell_at wb3 sh 2 0 = Some cc"
    by (rule grown_cell_at [OF g3 grown_cell_at [OF g2 grown_cell_at [OF g1 a3(1)]]])
  from evaluateCell_literal [OF c2 a3(3), of "{?k1, ?k0, ?kf}" k rt] kne obtain wb4 where
    e2: "?ev sh 2 0 (wb3, {?k1, ?k0, ?kf}) = Some (Inr VNull, wb4, {?k2, ?k1, ?k0, ?kf})"
    using a3(2) by auto
  have range: "sumRange ?ev rt sh ''A1:A3'' (wb1, {?kf}) = Some (Inr (Fin 1), wb4, {?k2, ?k1, ?k0, ?kf})"
    using e0 e1 e2 rt(1)
    by (simp add: sumRange_def match_range_A1_A3 a1ToRc_A1 a1ToRc_A3 upto_0_2
        ebind_def eret_def number_of_val_def isNaN_def del: evaluateCell.simps)
  have args: "sumArgs ?ev rt sh ''A1:A3'' (wb1, {?kf}) = Some (Inr (Fin 1), wb4, {?k2, ?k1, ?k0, ?kf})"
    using range
    by (simp add: sumArgs_def split_A1_A3 sumTerm_def trim_A1_A3 match_range_A1_A3
        ebind_def eret_def del: evaluateCell.simps)
  have s1: "replace_pieces (sumArgs ?ev rt sh) rt (sum_pieces ''SUM(A1:A3)'') (wb1, {?kf})
            = Some (Inr ''1'', wb4, {?k2, ?k1, ?k0, ?kf})"
    using args rt(2) by (simp add: sum_pieces_sum replace_pieces_def ebind_def eret_def)
  have s2: "replace_pieces (evalRef ?ev rt sh) rt (ref_pieces [] ''1'') (wb4, {?k2, ?k1, ?k0, ?kf})
            = Some (Inr ''1'', wb4, {?k2, ?k1, ?k0, ?kf})"
    by (simp add: ref_pieces_one replace_pieces_def ebind_def eret_def)
  have s3: "run_formula rt ''1'' (wb4, {?k2, ?k1, ?k0, ?kf}) = Some (Inr (VNum (Fin 1)), wb4, {?k2, ?k1, ?k0, ?kf})"
    using rt(3) by (simp add: run_formula_def eret_def)
  have "evaluateCell (Suc (Suc k)) rt sh (int r) (int c) (wb, {}) =
          Some (Inr (VNum (Fin 1)), wb4, {?k2, ?k1, ?k0, ?kf})"
    using g f(2) s1 s2 s3
    by (simp add: Let_def trim_sum ebind_def)
  then show ?thesis by simp
qed
lemma wb_sum_cells:
  "cell_at wb_sum ''Sheet1'' 0 0 =
     Some \<lparr>cell_value = VNum (Fin 1), formula = None, provenance = None, format = None\<rparr>"
  "cell_at wb_sum ''Sheet1'' 1 0 =
     Some \<lparr>cell_value = VStr ''x'', formula = None, provenance = None, format = None\<rparr>"
  "cell_at wb_sum ''Sheet1'' 2 0 =
     Some \<lparr>cell_value = VNull, formula = None, provenance = None, format = None\<rparr>"
  "cell_at wb_sum ''Sheet1'' 3 0 =
     Some \<lparr>cell_value = VNull, formula = Some ''=SUM(A1:A3)'', provenance = None, format = None\<rparr>"
  by code_simp+

lemma rt_int_x: "to_number rt_int ''x'' = NaN"
  by code_simp

lemma rt_int_one: "num_to_string rt_int (Fin 1) = ''1''"
  by code_simp

lemma rt_int_run_one: "run_expr rt_int ''1'' = Returns (JNum (Fin 1))"
  by code_simp

theorem sum_of_mixed_cells_witness:
  "cell_at wb_sum ''Sheet1'' 0 0 =
     Some \<lparr>cell_value = VNum (Fin 1), formula = None, provenance = None, format = None\<rparr> \<and>
   cell_at wb_sum ''Sheet1'' 1 0 =
     Some \<lparr>cell_value = VStr ''x'', formula = None, provenance = None, format = None\<rparr> \<and>
   cell_at wb_sum ''Sheet1'' 2 0 =
     Some \<lparr>cell_value = VNull, formula = None, provenance = None, format = None\<rparr> \<and>
   cell_at wb_sum ''Sheet1'' 3 0 =
     Some \<lparr>cell_value = VNull, formula = Some ''=SUM(A1:A3)'', provenance = None, format = None\<rparr> \<and>
   to_number rt_int ''x'' = NaN \<and> num_to_string rt_int (Fin 1) = ''1'' \<and>
   run_expr rt_int ''1'' = Returns (JNum (Fin 1)) \<and>
   map_option fst (evaluateCell (Suc (Suc 0)) rt_int ''Sheet1'' 3 0 (wb_sum, {})) =
     Some (Inr (VNum (Fin 1)))"
  using sum_of_mixed_cells
    [OF wb_sum_cells(1) _ _ wb_sum_cells(2) _ _ wb_sum_cells(3) _ _ wb_sum_cells(4) _
        rt_int_x rt_int_one rt_int_run_one, of 0]
    wb_sum_cells rt_int_x rt_int_one rt_int_run_one
  by simp

section \<open>The corners of a range\<close>

lemma takeWhile_stop: "\<not> P y \<Longrightarrow> takeWhile P (xs @ y # ys) = takeWhile P xs"
  by (induction xs) auto

lemma dropWhile_stop: "\<not> P y \<Longrightarrow> dropWhile P (xs @ y # ys) = dropWhile P xs @ y # ys"
  by (induction xs) auto

lemma colon_not_alpha: "\<not> is_alpha CHR '':''"
  by (simp add: is_alpha_def is_upper_def is_lower_def)

lemma colon_not_digit: "\<not> is_digit CHR '':''"
  by (simp add: is_digit_def)

lemma match_a1_no_colon:
  assumes "match_a1 s = Some p"
  shows "CHR '':'' \<notin> set s"
proof -
  have all: "list_all is_digit (dropWhile is_alpha s)"
    using assms by (auto simp: match_a1_def Let_def split: if_splits)
  have "set s = set (takeWhile is_alpha s @ dropWhile is_alpha s)" by simp
  then have "set s = set (takeWhile is_alpha s) \<union> set (dropWhile is_alpha s)"
    by (simp only: set_append)
  moreover have "CHR '':'' \<notin> set (takeWhile is_alpha s)"
    using colon_not_alpha by (auto dest: set_takeWhileD)
  moreover have "CHR '':'' \<notin> set (dropWhile is_alpha s)"
    using all colon_not_digit by (auto simp: list_all_iff)
  ultimately show ?thesis by simp
qed

lemma match_range_unfold:
  "match_range (X @ CHR '':'' # Y) =
      (if takeWhile is_alpha X \<noteq> [] \<and> takeWhile is_digit (dropWhile is_alpha X) \<noteq> [] \<and>
          hd (dropWhile is_digit (dropWhile is_alpha X) @ CHR '':'' # Y) = CHR '':''
       then (case match_a1 (tl (dropWhile is_digit (dropWhile is_alpha X) @ CHR '':'' # Y)) of
               Some (ls2, ds2) \<Rightarrow> Some (takeWhile is_alpha X, takeWhile is_digit (dropWhile is_alpha X), ls2, ds2)
             | None \<Rightarrow> None)
       else None)"
proof -
  let ?L = "takeWhile is_alpha X" and ?R = "dropWhile is_alpha X"
  let ?D = "takeWhile is_digit ?R" and ?R2 = "dropWhile is_digit ?R"
  have tw1: "takeWhile is_alpha (X @ CHR '':'' # Y) = ?L"
    by (simp add: takeWhile_stop colon_not_alpha)
  have dw1: "dropWhile is_alpha (X @ CHR '':'' # Y) = ?R @ CHR '':'' # Y"
    by (simp add: dropWhile_stop colon_not_alpha)
  have tw2: "takeWhile is_digit (?R @ CHR '':'' # Y) = ?D"
    by (simp add: takeWhile_stop colon_not_digit)
  have dw2: "dropWhile is_digit (?R @ CHR '':'' # Y) = ?R2 @ CHR '':'' # Y"
    by (simp add: dropWhile_stop colon_not_digit)
  have ne: "?R2 @ CHR '':'' # Y \<noteq> []" by simp
  show ?thesis
    by (simp only: match_range_def Let_def tw1 dw1 tw2 dw2 ne simp_thms)
qed

lemma match_range_corners:
  "match_range (X @ CHR '':'' # Y) =
     (case match_a1 X of
        None \<Rightarrow> None
      | Some (ls1, ds1) \<Rightarrow>
          (case match_a1 Y of None \<Rightarrow> None | Some (ls2, ds2) \<Rightarrow> Some (ls1, ds1, ls2, ds2)))"
proof -
  let ?L = "takeWhile is_alpha X" and ?R = "dropWhile is_alpha X"
  let ?D = "takeWhile is_digit ?R" and ?R2 = "dropWhile is_digit ?R"
  show ?thesis
  proof (cases "list_all is_digit ?R")
    case True
    then have d: "?D = ?R" and r2: "?R2 = []"
      by (simp_all add: list_all_iff)
    have x: "match_a1 X = (if ?L \<noteq> [] \<and> ?R \<noteq> [] then Some (?L, ?R) else None)"
      using True by (simp add: match_a1_def Let_def)
    show ?thesis
      by (simp only: match_range_unfold d r2 x append_Nil list.sel)
         (simp split: option.splits)
  next
    case False
    then have x: "match_a1 X = None" by (simp add: match_a1_def Let_def)
    have r2: "?R2 \<noteq> []" using False by (simp add: list_all_iff)
    have "match_a1 (tl ?R2 @ CHR '':'' # Y) = None"
    proof (cases "match_a1 (tl ?R2 @ CHR '':'' # Y)")
      case (Some p)
      from match_a1_no_colon [OF this] show ?thesis by simp
    qed simp
    with r2 x show ?thesis by (simp add: match_range_unfold)
  qed
qed

lemma a1ToRc_matched: "match_a1 s = Some p \<Longrightarrow> \<exists>r c. a1ToRc s = Inr (r, c)"
  by (cases p) (simp add: a1ToRc_def Let_def)

lemma match_a1_parts: "match_a1 s = Some (ls, ds) \<Longrightarrow> ls @ ds = s"
  by (auto simp: match_a1_def Let_def split: if_splits)

text \<open>
  Claim C10. The two corners of a range need not be ordered: for every sheet, every
  workbook and every two texts \<open>X\<close> and \<open>Y\<close>, \<open>sumRange\<close> on \<open>X:Y\<close> and on
  \<open>Y:X\<close> is the same computation. When both are references the rows and the columns
  run from the smaller to the larger index in both cases; otherwise neither text matches
  the pattern of a range and both sums are 0.
\<close>

theorem sumRange_corners_commute:
  "sumRange (evaluateCell k rt) rt sh (X @ '':'' @ Y) st =
   sumRange (evaluateCell k rt) rt sh (Y @ '':'' @ X) st"
proof -
  have xy: "X @ '':'' @ Y = X @ CHR '':'' # Y" and yx: "Y @ '':'' @ X = Y @ CHR '':'' # X"
    by simp_all
  show ?thesis
  proof (cases "match_a1 X")
    case None
    then show ?thesis
      by (simp only: xy yx sumRange_def match_range_corners) (simp split: option.splits)
  next
    case x: (Some p)
    show ?thesis
    proof (cases "match_a1 Y")
      case None
      then show ?thesis
        by (simp only: xy yx sumRange_def match_range_corners) (simp split: option.splits)
    next
      case y: (Some q)
      obtain ls1 ds1 where p: "p = (ls1, ds1)" by (cases p)
      obtain ls2 ds2 where q: "q = (ls2, ds2)" by (cases q)
      obtain ar ac where a: "a1ToRc X = Inr (ar, ac)" using a1ToRc_matched [OF x] by blast
      obtain br bc where b: "a1ToRc Y = Inr (br, bc)" using a1ToRc_matched [OF y] by blast
      have px: "ls1 @ ds1 = X" using x p by (simp add: match_a1_parts)
      have py: "ls2 @ ds2 = Y" using y q by (simp add: match_a1_parts)
      have l: "sumRange (evaluateCell k rt) rt sh (X @ CHR '':'' # Y) =
               efold (\<lambda>r. efold (\<lambda>c total.
                             ebind (evaluateCell k rt sh r c) (\<lambda>v.
                               let n = number_of_val rt v
                               in eret (if \<not> isNaN n then jadd total n else total)))
                           [min ac bc..max ac bc])
                      [min ar br..max ar br] (Fin 0)"
        by (simp only: sumRange_def match_range_corners x y p q px py a b
            option.case prod.case sum.case)
      have r: "sumRange (evaluateCell k rt) rt sh (Y @ CHR '':'' # X) =
               efold (\<lambda>r. efold (\<lambda>c total.
                             ebind (evaluateCell k rt sh r c) (\<lambda>v.
                               let n = number_of_val rt v
                               in eret (if \<not> isNaN n then jadd total n else total)))
                           [min bc ac..max bc ac])
                      [min br ar..max br ar] (Fin 0)"
        by (simp only: sumRange_def match_range_corners x y p q px py a b
            option.case prod.case sum.case)
      show ?thesis
        by (simp only: xy yx l r min.commute [of ar br] max.commute [of ar br]
            min.commute [of ac bc] max.commute [of ac bc])
    qed
  qed
qed
theorem sumRange_corners_commute_witness:
  "sumRange (evaluateCell 1 rt_int) rt_int ''Sheet1'' ''A1:A3'' (wb_sum, {}) =
   sumRange (evaluateCell 1 rt_int) rt_int ''Sheet1'' ''A3:A1'' (wb_sum, {})"
  using sumRange_corners_commute [of 1 rt_int "''Sheet1''" "''A1''" "''A3''" "(wb_sum, {})"]
  by simp

section \<open>The plan executor stops at the first failure\<close>











section \<open>Undo and provenance\<close>


lemma prov_at_checkpoint: "prov_A1 wb_prov0 = Some (Some [prov_a])" by code_simp
lemma prov_after_link: "prov_A1 wb_prov1 = Some (Some [prov_a, prov_b])" by code_simp
lemma prov_after_undo_1: "prov_A1 (undo_n 1 wb_prov1) = Some (Some [prov_a, prov_b])" by code_simp
lemma prov_after_undo_2: "prov_A1 (undo_n 2 wb_prov1) = Some (Some [prov_a, prov_b])" by code_simp
lemma events_after_undo_2: "length (events (undo_n 2 wb_prov1)) = length (events wb_prov0)" by code_simp
lemma prov_after_undo_3: "prov_A1 (undo_n 3 wb_prov1) = Some None" by code_simp
lemma prov_after_undo_4: "prov_A1 (undo_n 4 wb_prov1) = Some None" by code_simp
lemma prov_after_undo_5: "prov_A1 (undo_n 5 wb_prov1) = None" by code_simp
lemma prov_after_undo_6: "prov_A1 (undo_n 6 wb_prov1) = Some None" by code_simp
lemma undo_7_is_undo_5: "undo_n 7 wb_prov1 = undo_n 5 wb_prov1" by code_simp

lemma undo_n_add: "undo_n (m + n) wb = undo_n n (undo_n m wb)"
  by (induction m arbitrary: wb) auto

lemma undo_n_period: "undo_n (7 + m) wb_prov1 = undo_n (5 + m) wb_prov1"
  by (simp only: undo_n_add undo_7_is_undo_5)

lemma undo_never_restores: "prov_A1 (undo_n n wb_prov1) \<noteq> Some (Some [prov_a])"
proof (induction n rule: less_induct)
  case (less n)
  show ?case
  proof (cases "n < 7")
    case True
    then consider "n = 0" | "n = 1" | "n = 2" | "n = 3" | "n = 4" | "n = 5" | "n = 6"
      by linarith
    then show ?thesis
    proof cases
      case 1
      then show ?thesis using prov_after_link by (simp add: prov_a_def prov_b_def)
    next
      case 2
      then show ?thesis using prov_after_undo_1 by (simp add: prov_a_def prov_b_def)
    next
      case 3
      then show ?thesis using prov_after_undo_2 by (simp add: prov_a_def prov_b_def)
    next
      case 4
      then show ?thesis using prov_after_undo_3 by simp
    next
      case 5
      then show ?thesis using prov_after_undo_4 by simp
    next
      case 6
      then show ?thesis using prov_after_undo_5 by simp
    next
      case 7
      then show ?thesis using prov_after_undo_6 by simp
    qed
  next
    case False
    then obtain m where n: "n = 7 + m" by (metis le_add_diff_inverse not_less)
    then have "undo_n n wb_prov1 = undo_n (5 + m) wb_prov1" by (simp only: undo_n_period)
    moreover have "5 + m < n" using n by simp
    ultimately show ?thesis using less.IH by simp
  qed
qed

text \<open>
  Claim C1 (the code departs from it). \<open>A1\<close> has the provenance entry \<open>prov_a\<close> at
  the checkpoint; \<open>linkProvenance\<close> then pushes \<open>prov_b\<close> onto the cell's array, which
  the snapshot in the event's inverse shares. After two calls of \<open>undo\<close> the event log
  is as long as at the checkpoint and the cell's provenance is still both entries; and
  after no number of calls is it the one entry of the checkpoint.
\<close>


theorem undo_keeps_linked_provenance:
  "prov_A1 wb_prov0 = Some (Some [prov_a]) \<and>
   length (events (undo_n 2 wb_prov1)) = length (events wb_prov0) \<and>
   prov_A1 (undo_n 2 wb_prov1) = Some (Some [prov_a, prov_b]) \<and>
   (\<forall>n. prov_A1 (undo_n n wb_prov1) \<noteq> Some (Some [prov_a]))"
  using prov_at_checkpoint prov_after_undo_2 events_after_undo_2 undo_never_restores by blast

section \<open>What setValues writes\<close>

subsection \<open>Loops and relations\<close>

lemma for_each_rel:
  assumes refl: "\<And>s. R s s" and trans: "\<And>a b c. R a b \<Longrightarrow> R b c \<Longrightarrow> R a c"
    and step: "\<And>x s res s'. x \<in> set xs \<Longrightarrow> f x s = (res, s') \<Longrightarrow> R s s'"
  shows "for_each f xs s = (res, s') \<Longrightarrow> R s s'"
  using step
proof (induction xs arbitrary: s)
  case Nil
  then show ?case by (simp add: refl)
next
  case (Cons x xs)
  obtain r1 s1 where f: "f x s = (r1, s1)" by (cases "f x s") auto
  have r: "R s s1" using Cons.prems(2) [of x s r1 s1] f by simp
  show ?case
  proof (cases r1)
    case (Inl e)
    with Cons.prems(1) f r show ?thesis by simp
  next
    case (Inr u)
    with Cons.prems(1) f have "for_each f xs s1 = (res, s')" by simp
    then have "R s1 s'" by (rule Cons.IH) (use Cons.prems(2) in auto)
    with r show ?thesis by (rule trans)
  qed
qed

lemma js_at_js_set: "js_at (js_set rw i x) j = (if j = i then Some x else js_at rw j)"
  by (auto simp: js_at_def js_set_def nth_append)

lemma slot_update:
  "rr < length rws \<Longrightarrow>
   slot (rws[rr := js_set (rws ! rr) cc x]) r c = (if r = rr \<and> c = cc then Some x else slot rws r c)"
  by (auto simp: slot_def js_at_js_set nth_list_update)

lemma same_but_refl: "same_but W s s"
  by (simp add: same_but_def)

lemma same_but_trans: "same_but W a b \<Longrightarrow> same_but W b c \<Longrightarrow> same_but W a c"
  by (auto simp: same_but_def intro: prefix_order.trans)

lemma same_but_mono: "same_but V a b \<Longrightarrow> V \<subseteq> W \<Longrightarrow> same_but W a b"
  by (auto simp: same_but_def)

lemma alloc_prefix: "alloc ps h = (a, h') \<Longrightarrow> prefix h h'"
  by (auto simp: alloc_def)

lemma write_value_same_but:
  "write_value rr cc v prov s = (res, s') \<Longrightarrow> same_but {(rr, cc)} s s'"
  by (cases s)
     (auto simp: write_value_def same_but_def Let_def slot_update alloc_def
       split: if_splits option.splits prod.splits)

lemma stamped_prefix: "stamped prov h cl \<Longrightarrow> prefix h h' \<Longrightarrow> stamped prov h' cl"
  by (auto simp: stamped_def prefix_def nth_append split: option.splits)

lemma write_value_written:
  "write_value rr cc v prov s = (Inr (), s') \<Longrightarrow>
   \<exists>cl. slot (fst s') rr cc = Some cl \<and> cell_value cl = v \<and> formula cl = None \<and>
        stamped prov (snd s') cl"
  by (cases s)
     (auto simp: write_value_def Let_def slot_update alloc_def stamped_def
       split: if_splits option.splits prod.splits)

lemma write_row_same_but:
  assumes "for_each (write_row rr cb prov) (enumerate n vs) s = (res, s')"
  shows "same_but {(rr, cb + n + j) | j. j < length vs} s s'"
proof (rule for_each_rel [OF same_but_refl _ _ assms])
  fix a b c assume "same_but {(rr, cb + n + j) | j. j < length vs} a b"
    and "same_but {(rr, cb + n + j) | j. j < length vs} b c"
  then show "same_but {(rr, cb + n + j) | j. j < length vs} a c" by (rule same_but_trans)
next
  fix x s1 res1 s1'
  assume x: "x \<in> set (enumerate n vs)" and w: "write_row rr cb prov x s1 = (res1, s1')"
  obtain c v where xc: "x = (c, v)" by (cases x)
  from x xc have c: "n \<le> c" "c < length vs + n" by (auto simp: in_set_enumerate_eq)
  have "same_but {(rr, cb + c)} s1 s1'"
    using w xc by (auto simp: write_row_def intro: write_value_same_but)
  moreover have "(rr, cb + c) \<in> {(rr, cb + n + j) | j. j < length vs}"
  proof -
    have "cb + c = cb + n + (c - n)" "c - n < length vs" using c by auto
    then show ?thesis by blast
  qed
  ultimately show "same_but {(rr, cb + n + j) | j. j < length vs} s1 s1'"
    by (auto intro: same_but_mono)
qed

lemma write_row_written:
  "for_each (write_row rr cb prov) (enumerate n vs) s = (Inr (), s') \<Longrightarrow> j < length vs \<Longrightarrow>
   \<exists>cl. slot (fst s') rr (cb + n + j) = Some cl \<and> cell_value cl = vs ! j \<and> formula cl = None \<and>
        stamped prov (snd s') cl"
proof (induction vs arbitrary: n s j)
  case Nil
  then show ?case by simp
next
  case (Cons v vs)
  obtain r1 s1 where w: "write_value rr (cb + n) v prov s = (r1, s1)"
    by (cases "write_value rr (cb + n) v prov s") auto
  with Cons.prems(1) have r1: "r1 = Inr ()"
    and rest: "for_each (write_row rr cb prov) (enumerate (Suc n) vs) s1 = (Inr (), s')"
    by (auto simp: write_row_def split: sum.splits)
  show ?case
  proof (cases j)
    case 0
    from write_value_written [OF w [unfolded r1]] obtain cl where
      cl: "slot (fst s1) rr (cb + n) = Some cl" "cell_value cl = v" "formula cl = None"
        "stamped prov (snd s1) cl" by blast
    have sb: "same_but {(rr, cb + Suc n + j) | j. j < length vs} s1 s'"
      by (rule write_row_same_but [OF rest])
    moreover have "(rr, cb + n) \<notin> {(rr, cb + Suc n + j) | j. j < length vs}" by auto
    ultimately have "slot (fst s') rr (cb + n) = slot (fst s1) rr (cb + n)"
      unfolding same_but_def by blast
    moreover have "stamped prov (snd s') cl"
      using cl(4) sb by (auto simp: same_but_def intro: stamped_prefix)
    ultimately show ?thesis using cl 0 by simp
  next
    case (Suc j')
    with Cons.prems(2) have "j' < length vs" by simp
    from Cons.IH [OF rest this] Suc show ?thesis by simp
  qed
qed

lemma write_rows_same_but:
  assumes "for_each (write_rows rb cb prov) (enumerate n vals) s = (res, s')"
  shows "same_but (footprint rb cb n vals) s s'"
proof (rule for_each_rel [OF same_but_refl _ _ assms])
  fix a b c assume "same_but (footprint rb cb n vals) a b" "same_but (footprint rb cb n vals) b c"
  then show "same_but (footprint rb cb n vals) a c" by (rule same_but_trans)
next
  fix x s1 res1 s1'
  assume x: "x \<in> set (enumerate n vals)" and w: "write_rows rb cb prov x s1 = (res1, s1')"
  obtain r vs where xr: "x = (r, vs)" by (cases x)
  from x xr have r: "n \<le> r" "r < length vals + n" "vs = vals ! (r - n)"
    by (auto simp: in_set_enumerate_eq)
  have w': "for_each (write_row (rb + r) cb prov) (enumerate 0 vs) s1 = (res1, s1')"
    using w xr by (simp add: write_rows_def)
  have "same_but {(rb + r, cb + 0 + j) | j. j < length vs} s1 s1'"
    by (rule write_row_same_but [OF w'])
  moreover have "{(rb + r, cb + 0 + j) | j. j < length vs} \<subseteq> footprint rb cb n vals"
  proof
    fix p assume "p \<in> {(rb + r, cb + 0 + j) | j. j < length vs}"
    then obtain j where p: "p = (rb + r, cb + j)" "j < length vs" by auto
    have "rb + r = rb + n + (r - n)" "r - n < length vals" using r by auto
    with p r(3) show "p \<in> footprint rb cb n vals" unfolding footprint_def by blast
  qed
  ultimately show "same_but (footprint rb cb n vals) s1 s1'" by (rule same_but_mono)
qed

lemma write_rows_written:
  "for_each (write_rows rb cb prov) (enumerate n vals) s = (Inr (), s') \<Longrightarrow>
   i < length vals \<Longrightarrow> j < length (vals ! i) \<Longrightarrow>
   \<exists>cl. slot (fst s') (rb + n + i) (cb + j) = Some cl \<and> cell_value cl = vals ! i ! j \<and> formula cl = None \<and>
        stamped prov (snd s') cl"
proof (induction vals arbitrary: n s i)
  case Nil
  then show ?case by simp
next
  case (Cons vs vals)
  obtain r1 s1 where w: "for_each (write_row (rb + n) cb prov) (enumerate 0 vs) s = (r1, s1)"
    by (cases "for_each (write_row (rb + n) cb prov) (enumerate 0 vs) s") auto
  with Cons.prems(1) have r1: "r1 = Inr ()"
    and rest: "for_each (write_rows rb cb prov) (enumerate (Suc n) vals) s1 = (Inr (), s')"
    by (auto simp: write_rows_def split: sum.splits)
  show ?case
  proof (cases i)
    case 0
    with Cons.prems(3) have j: "j < length vs" by simp
    from write_row_written [OF w [unfolded r1] j] obtain cl where
      cl: "slot (fst s1) (rb + n) (cb + j) = Some cl" "cell_value cl = vs ! j" "formula cl = None"
        "stamped prov (snd s1) cl"
      by auto
    have sb: "same_but (footprint rb cb (Suc n) vals) s1 s'"
      by (rule write_rows_same_but [OF rest])
    moreover have "(rb + n, cb + j) \<notin> footprint rb cb (Suc n) vals"
      by (auto simp: footprint_def)
    ultimately have "slot (fst s') (rb + n) (cb + j) = slot (fst s1) (rb + n) (cb + j)"
      unfolding same_but_def by blast
    moreover have "stamped prov (snd s') cl"
      using cl(4) sb by (auto simp: same_but_def intro: stamped_prefix)
    ultimately show ?thesis using cl 0 by simp
  next
    case (Suc i')
    with Cons.prems(2,3) have "i' < length vals" "j < length (vals ! i')" by simp_all
    from Cons.IH [OF rest this] Suc show ?thesis by simp
  qed
qed

subsection \<open>The frame of an operation\<close>

lemma frame_refl: "frame nm W wb wb"
  by (simp add: frame_def)

lemma frame_trans: "frame nm W a b \<Longrightarrow> frame nm W b c \<Longrightarrow> frame nm W a c"
  by (auto simp: frame_def intro: prefix_order.trans)

lemma framingD: "framing nm W m \<Longrightarrow> m wb = (res, wb') \<Longrightarrow> frame nm W wb wb'"
  unfolding framing_def by blast

lemma framing_andThen:
  assumes "framing nm W m" "\<And>x. framing nm W (f x)"
  shows "framing nm W (andThen m f)"
  unfolding framing_def
proof (intro allI impI)
  fix wb res wb'
  assume run: "andThen m f wb = (res, wb')"
  obtain r1 wb1 where m: "m wb = (r1, wb1)" by (cases "m wb") auto
  have f1: "frame nm W wb wb1" by (rule framingD [OF assms(1) m])
  show "frame nm W wb wb'"
  proof (cases r1)
    case (Inl e)
    with run m f1 show ?thesis by (simp add: andThen_def)
  next
    case (Inr x)
    with run m have "f x wb1 = (res, wb')" by (simp add: andThen_def)
    from framingD [OF assms(2) this] f1 show ?thesis by (blast intro: frame_trans)
  qed
qed

lemma framing_getSheet: "framing nm W (getSheet k)"
  by (auto simp: framing_def getSheet_def frame_refl split: option.splits)

lemma framing_appendEvent: "framing nm W (appendEvent opn iv summ)"
  by (auto simp: framing_def appendEvent_def frame_def cell_at_def)

lemma grown_frame: "grown wb wb' \<Longrightarrow> frame nm W wb wb'"
  by (simp add: frame_def grown_copy) (simp add: grown_def)

lemma framing_ensureSize: "framing nm W (ensureSize k n cols)"
  by (auto simp: framing_def dest: ensureSize_grown grown_frame)

lemma on_sheet_result:
  assumes "on_sheet nm f wb = (res, wb')"
  shows "(map_of (sheets wb) nm = None \<and> wb' = wb \<and> res = Inl (SheetNotFound nm)) \<or>
         (\<exists>s rws' h'. map_of (sheets wb) nm = Some s \<and> f (rows s, store wb) = (res, rws', h') \<and>
                       wb' = set_rows nm rws' (wb\<lparr>store := h'\<rparr>))"
  using assms
  by (auto simp: on_sheet_def andThen_def getSheet_def split: option.splits prod.splits)

lemma cell_at_set_rows:
  "map_of (sheets wb) nm = Some s \<Longrightarrow>
   cell_at (set_rows nm rws (wb\<lparr>store := h\<rparr>)) nm' r c =
     (if nm' = nm then slot rws r c else cell_at wb nm' r c)"
  by (simp add: cell_at_def set_rows_def map_of_map_entry)

lemma store_set_rows: "store (set_rows nm rws (wb\<lparr>store := h\<rparr>)) = h"
  by (simp add: set_rows_def)

lemma framing_on_sheet:
  assumes "\<And>s res s'. f s = (res, s') \<Longrightarrow> same_but V s s'"
    and "k = nm \<Longrightarrow> V \<subseteq> W" and "k \<noteq> nm \<Longrightarrow> V = {}"
  shows "framing nm W (on_sheet k f)"
  unfolding framing_def
proof (intro allI impI)
  fix wb res wb'
  assume "on_sheet k f wb = (res, wb')"
  from on_sheet_result [OF this] show "frame nm W wb wb'"
  proof (elim disjE conjE exE)
    assume "wb' = wb"
    then show ?thesis by (simp add: frame_refl)
  next
    fix s rws' h'
    assume s: "map_of (sheets wb) k = Some s" and f: "f (rows s, store wb) = (res, rws', h')"
      and wb': "wb' = set_rows k rws' (wb\<lparr>store := h'\<rparr>)"
    have sb: "same_but V (rows s, store wb) (rws', h')" by (rule assms(1) [OF f])
    have pre: "prefix (store wb) h'" using sb by (simp add: same_but_def)
    have keep: "slot rws' r c = slot (rows s) r c" if "k = nm \<longrightarrow> (r, c) \<notin> W" for r c
    proof -
      have "(r, c) \<notin> V" using that assms(2,3) by (cases "k = nm") auto
      then show ?thesis using sb by (simp add: same_but_def)
    qed
    show ?thesis
      unfolding frame_def wb' store_set_rows cell_at_set_rows [OF s]
      using pre keep s by (auto simp: cell_at_def)
  qed
qed

lemma framing_snapshot: "framing nm W (snapshot rg)"
  unfolding snapshot_def
  by (intro framing_andThen framing_getSheet framing_ensureSize framing_on_sheet [where V = "{}"])
     (auto simp: same_but_def)

lemma heap_okD:
  assumes "heap_ok wb" "cell_at wb nm r c = Some cl" "provenance cl = Some a"
  shows "a < length (store wb)"
proof -
  obtain s where s: "map_of (sheets wb) nm = Some s" "slot (rows s) r c = Some cl"
    using assms(2) by (auto simp: cell_at_def split: option.splits)
  have in_sheets: "(nm, s) \<in> set (sheets wb)" by (rule map_of_SomeD [OF s(1)])
  have r: "r < length (rows s)" and c: "c < length (rows s ! r)" and at: "rows s ! r ! c = Some cl"
    using s(2) by (auto simp: slot_def js_at_def split: if_splits)
  have "rows s ! r \<in> set (rows s)" using r by simp
  moreover have "Some cl \<in> set (rows s ! r)" using c at by (metis nth_mem)
  ultimately show ?thesis
    using assms(1,3) in_sheets by (fastforce simp: heap_ok_def list_all_iff)
qed

lemma deref_prefix: "prefix h h' \<Longrightarrow> a < length h \<Longrightarrow> deref h' a = deref h a"
  by (auto simp: prefix_def deref_def nth_append)

lemma frame_view:
  assumes "frame nm W wb wb'" "heap_ok wb" "\<not> (nm' = nm \<and> (r, c) \<in> W)"
  shows "cell_view wb' nm' r c = cell_view wb nm' r c"
proof -
  have cp: "copy_cell (cell_at wb' nm' r c) = copy_cell (cell_at wb nm' r c)"
    and pre: "prefix (store wb) (store wb')"
    using assms(1,3) by (auto simp: frame_def)
  have "prov_list wb' (copy_cell (cell_at wb nm' r c)) = prov_list wb (copy_cell (cell_at wb nm' r c))"
  proof (cases "cell_at wb nm' r c")
    case None
    then show ?thesis by (simp add: copy_cell_def prov_list_def empty_cell_def)
  next
    case (Some cl)
    show ?thesis
    proof (cases "provenance cl")
      case None
      with Some show ?thesis by (simp add: copy_cell_def prov_list_def)
    next
      case (Some a)
      from heap_okD [OF assms(2) \<open>cell_at wb nm' r c = Some cl\<close> Some] deref_prefix [OF pre]
      show ?thesis using Some \<open>cell_at wb nm' r c = Some cl\<close>
        by (simp add: copy_cell_def prov_list_def)
    qed
  qed
  with cp show ?thesis by (simp add: cell_view_def Let_def)
qed

lemma setValues_loop:
  "(\<lambda>(r, vs). for_each (\<lambda>(c, v). write_value (rb + r) (cb + c) v prov) (enumerate 0 vs)) =
   write_rows rb cb prov"
  by (simp add: write_rows_def write_row_def)

lemma framing_setValues:
  "framing (sheet rg) (footprint (r1 rg) (c1 rg) 0 vals) (setValues rg vals prov)"
  unfolding setValues_def setValues_loop
  by (intro framing_andThen framing_snapshot framing_getSheet framing_ensureSize framing_appendEvent
        framing_on_sheet [where V = "footprint (r1 rg) (c1 rg) 0 vals"])
     (auto dest: write_rows_same_but)

lemma write_value_length: "write_value rr cc v prov s = (res, s') \<Longrightarrow> length (fst s') = length (fst s)"
  by (cases s) (auto simp: write_value_def Let_def split: if_splits option.splits prod.splits)

lemma write_value_ok: "rr < length (fst s) \<Longrightarrow> \<exists>s'. write_value rr cc v prov s = (Inr (), s')"
  by (cases s) (auto simp: write_value_def Let_def split: option.splits prod.splits)

lemma write_row_ok:
  "rr < length (fst s) \<Longrightarrow>
   \<exists>s'. for_each (write_row rr cb prov) (enumerate n vs) s = (Inr (), s') \<and> length (fst s') = length (fst s)"
proof (induction vs arbitrary: n s)
  case Nil
  then show ?case by simp
next
  case (Cons v vs)
  from write_value_ok [OF Cons.prems] obtain s1 where
    w: "write_value rr (cb + n) v prov s = (Inr (), s1)" by blast
  have l: "length (fst s1) = length (fst s)" by (rule write_value_length [OF w])
  with Cons.prems have "rr < length (fst s1)" by simp
  from Cons.IH [OF this, of "Suc n"] w l show ?case by (auto simp: write_row_def)
qed

lemma write_rows_ok:
  "rb + n + length vals \<le> length (fst s) \<Longrightarrow>
   \<exists>s'. for_each (write_rows rb cb prov) (enumerate n vals) s = (Inr (), s') \<and>
        length (fst s') = length (fst s)"
proof (induction vals arbitrary: n s)
  case Nil
  then show ?case by simp
next
  case (Cons vs vals)
  then have "rb + n < length (fst s)" by simp
  from write_row_ok [OF this, of cb prov 0 vs] obtain s1 where
    w: "for_each (write_row (rb + n) cb prov) (enumerate 0 vs) s = (Inr (), s1)"
    and l: "length (fst s1) = length (fst s)" by blast
  with Cons.prems have "rb + Suc n + length vals \<le> length (fst s1)" by simp
  from Cons.IH [OF this] w l show ?case by (auto simp: write_rows_def)
qed

subsection \<open>When setValues succeeds\<close>

lemma andThen_Inr:
  "andThen m f wb = (Inr y, wb') \<Longrightarrow> \<exists>x wb1. m wb = (Inr x, wb1) \<and> f x wb1 = (Inr y, wb')"
  by (auto simp: andThen_def split: prod.splits sum.splits)

lemma map_of_set_rows:
  "map_of (sheets wb) nm = Some s \<Longrightarrow>
   map_of (sheets (set_rows nm rws (wb\<lparr>store := h\<rparr>))) nm = Some (s\<lparr>rows := rws\<rparr>)"
  by (simp add: set_rows_def map_of_map_entry)

lemma ensureSize_result:
  "map_of (sheets wb) nm = Some s \<Longrightarrow>
   ensureSize nm n cols wb = (Inr (), set_rows nm (grow_rows n cols (rows s)) (wb\<lparr>store := store wb\<rparr>))"
  by (simp add: ensureSize_def on_sheet_def andThen_def getSheet_def)

lemma grow_rows_length: "n \<le> length (grow_rows n cols rws)"
  by (simp add: grow_rows_def)

lemma map_err_ok: "(\<And>x. x \<in> set xs \<Longrightarrow> \<exists>y. f x = Inr y) \<Longrightarrow> \<exists>ys. map_err f xs = Inr ys"
proof (induction xs)
  case Nil
  then show ?case by simp
next
  case (Cons x xs)
  then obtain y where "f x = Inr y" by auto
  moreover obtain ys where "map_err f xs = Inr ys" using Cons by auto
  ultimately show ?case by simp
qed

lemma snapshot_ok:
  assumes "map_of (sheets wb) (sheet rg) = Some s"
  shows "\<exists>before wbA sA. snapshot rg wb = (Inr before, wbA) \<and>
           map_of (sheets wbA) (sheet rg) = Some sA \<and> r2 rg < length (rows sA)"
proof -
  let ?rws = "grow_rows (r2 rg + 1) (c2 rg + 1) (rows s)"
  let ?wb1 = "set_rows (sheet rg) ?rws (wb\<lparr>store := store wb\<rparr>)"
  have e: "ensureSize (sheet rg) (r2 rg + 1) (c2 rg + 1) wb = (Inr (), ?wb1)"
    by (rule ensureSize_result [OF assms])
  have s1: "map_of (sheets ?wb1) (sheet rg) = Some (s\<lparr>rows := ?rws\<rparr>)"
    by (rule map_of_set_rows [OF assms])
  have len: "r2 rg < length ?rws"
    using grow_rows_length [of "r2 rg + 1" "c2 rg + 1" "rows s"] by simp
  have "\<exists>ys. map_err (snap_row ?rws rg) [r1 rg..<Suc (r2 rg)] = Inr ys"
  proof (rule map_err_ok)
    fix x assume "x \<in> set [r1 rg..<Suc (r2 rg)]"
    then have "x \<le> r2 rg" by auto
    then have "x < length ?rws" using len by (rule le_less_trans)
    then show "\<exists>y. snap_row ?rws rg x = Inr y" by (simp add: snap_row_def)
  qed
  then obtain ys where ys: "map_err (snap_row ?rws rg) [r1 rg..<Suc (r2 rg)] = Inr ys" by blast
  let ?wbA = "set_rows (sheet rg) ?rws (?wb1\<lparr>store := store ?wb1\<rparr>)"
  have "snapshot rg wb = (Inr ys, ?wbA)"
    using assms e s1 ys
    by (simp add: snapshot_def andThen_def getSheet_def on_sheet_def)
  moreover have "map_of (sheets ?wbA) (sheet rg) = Some (s\<lparr>rows := ?rws\<rparr>)"
    using map_of_set_rows [OF s1, of ?rws "store ?wb1"] by simp
  ultimately show ?thesis using len by auto
qed

lemma setValues_ok:
  assumes "map_of (sheets wb) (sheet rg) = Some s" "r1 rg + length vals \<le> r2 rg + 1"
  shows "\<exists>wb'. setValues rg vals prov wb = (Inr (), wb')"
proof -
  let ?nm = "sheet rg"
  from snapshot_ok [OF assms(1)] obtain before wbA sA where
    sn: "snapshot rg wb = (Inr before, wbA)" and sA: "map_of (sheets wbA) ?nm = Some sA"
    by blast
  let ?rws = "grow_rows (r2 rg + 1) (c2 rg + 1) (rows sA)"
  let ?wbB = "set_rows ?nm ?rws (wbA\<lparr>store := store wbA\<rparr>)"
  have e: "ensureSize ?nm (r2 rg + 1) (c2 rg + 1) wbA = (Inr (), ?wbB)"
    by (rule ensureSize_result [OF sA])
  have sB: "map_of (sheets ?wbB) ?nm = Some (sA\<lparr>rows := ?rws\<rparr>)"
    by (rule map_of_set_rows [OF sA])
  have "r1 rg + 0 + length vals \<le> length (fst (?rws, store ?wbB))"
    using assms(2) grow_rows_length [of "r2 rg + 1" "c2 rg + 1" "rows sA"] by simp
  from write_rows_ok [OF this, of "c1 rg" prov] obtain s' where
    loop: "for_each (write_rows (r1 rg) (c1 rg) prov) (enumerate 0 vals) (?rws, store ?wbB) = (Inr (), s')"
    by blast
  obtain rws' h' where s': "s' = (rws', h')" by (cases s')
  show ?thesis
    using sn sA e sB loop s'
    by (simp add: setValues_def setValues_loop andThen_def getSheet_def on_sheet_def appendEvent_def)
qed

lemma setValues_written:
  assumes "setValues rg vals prov wb = (Inr (), wb')" "i < length vals" "j < length (vals ! i)"
  shows "\<exists>cl. cell_at wb' (sheet rg) (r1 rg + i) (c1 rg + j) = Some cl \<and>
              cell_value cl = vals ! i ! j \<and> formula cl = None \<and> stamped prov (store wb') cl"
proof -
  let ?nm = "sheet rg"
  let ?loop = "for_each (write_rows (r1 rg) (c1 rg) prov) (enumerate 0 vals)"
  have "\<exists>wb3 wb4. on_sheet ?nm ?loop wb3 = (Inr (), wb4) \<and> sheets wb' = sheets wb4 \<and>
          store wb' = store wb4"
    using assms(1) unfolding setValues_def setValues_loop
    by (auto dest!: andThen_Inr simp: appendEvent_def) force
  then obtain wb3 wb4 where
    os: "on_sheet ?nm ?loop wb3 = (Inr (), wb4)" and sh: "sheets wb' = sheets wb4"
    and st: "store wb' = store wb4"
    by blast
  from on_sheet_result [OF os] obtain s rws' h' where
    s: "map_of (sheets wb3) ?nm = Some s" and loop: "?loop (rows s, store wb3) = (Inr (), rws', h')"
    and wb4: "wb4 = set_rows ?nm rws' (wb3\<lparr>store := h'\<rparr>)"
    by auto
  from write_rows_written [OF loop assms(2,3)] obtain cl where
    "slot rws' (r1 rg + i) (c1 rg + j) = Some cl" "cell_value cl = vals ! i ! j" "formula cl = None"
    "stamped prov h' cl"
    by auto
  moreover have "cell_at wb' ?nm (r1 rg + i) (c1 rg + j) = slot rws' (r1 rg + i) (c1 rg + j)"
    using cell_at_set_rows [OF s, of rws' h' ?nm] sh wb4 by (simp add: cell_at_def)
  moreover have "store wb' = h'" using st wb4 by (simp add: store_set_rows)
  ultimately show ?thesis by simp
qed

subsection \<open>The footprint of the values\<close>

text \<open>
  Claim C4, as amended. \<open>setValues\<close> does not clip by the range: it writes exactly
  the positions \<open>(r1 + i, c1 + j)\<close> of the entries \<open>vals[i][j]\<close> of the values array. Every
  other cell of the workbook keeps its value, formula, format and provenance records; when
  the call returns, each written cell holds its value and has no formula. When the values fit
  in the range rectangle, the call returns if the sheet exists, and every cell outside the
  rectangle keeps its value, formula, format and provenance records.
\<close>

theorem setValues_writes_the_values_footprint:
  assumes "setValues rg vals prov wb = (res, wb')" and "heap_ok wb"
  shows "(\<forall>nm r c. \<not> (nm = sheet rg \<and> (r, c) \<in> footprint (r1 rg) (c1 rg) 0 vals) \<longrightarrow>
            cell_view wb' nm r c = cell_view wb nm r c) \<and>
         (res = Inr () \<longrightarrow>
            (\<forall>i j. i < length vals \<longrightarrow> j < length (vals ! i) \<longrightarrow>
               (\<exists>cl. cell_at wb' (sheet rg) (r1 rg + i) (c1 rg + j) = Some cl \<and>
                     cell_value cl = vals ! i ! j \<and> formula cl = None))) \<and>
         (r1 rg + length vals \<le> r2 rg + 1 \<and> (\<forall>vs \<in> set vals. c1 rg + length vs \<le> c2 rg + 1) \<longrightarrow>
            (map_of (sheets wb) (sheet rg) \<noteq> None \<longrightarrow> res = Inr ()) \<and>
            (\<forall>nm r c. \<not> (nm = sheet rg \<and> r1 rg \<le> r \<and> r \<le> r2 rg \<and> c1 rg \<le> c \<and> c \<le> c2 rg) \<longrightarrow>
               cell_view wb' nm r c = cell_view wb nm r c))"
proof (intro conjI allI impI)
  have fr: "frame (sheet rg) (footprint (r1 rg) (c1 rg) 0 vals) wb wb'"
    by (rule framingD [OF framing_setValues assms(1)])
  show out: "cell_view wb' nm r c = cell_view wb nm r c"
    if "\<not> (nm = sheet rg \<and> (r, c) \<in> footprint (r1 rg) (c1 rg) 0 vals)" for nm r c
    by (rule frame_view [OF fr assms(2) that])
  show "\<exists>cl. cell_at wb' (sheet rg) (r1 rg + i) (c1 rg + j) = Some cl \<and>
             cell_value cl = vals ! i ! j \<and> formula cl = None"
    if "res = Inr ()" "i < length vals" "j < length (vals ! i)" for i j
    using setValues_written [OF assms(1) [unfolded that(1)] that(2,3)] by blast
  show "res = Inr ()"
    if "r1 rg + length vals \<le> r2 rg + 1 \<and> (\<forall>vs \<in> set vals. c1 rg + length vs \<le> c2 rg + 1)"
      and "map_of (sheets wb) (sheet rg) \<noteq> None"
  proof -
    from that(2) obtain s where "map_of (sheets wb) (sheet rg) = Some s" by auto
    from setValues_ok [OF this, of vals prov] that(1) assms(1) show ?thesis by auto
  qed
  show "cell_view wb' nm r c = cell_view wb nm r c"
    if fits: "r1 rg + length vals \<le> r2 rg + 1 \<and> (\<forall>vs \<in> set vals. c1 rg + length vs \<le> c2 rg + 1)"
      and nin: "\<not> (nm = sheet rg \<and> r1 rg \<le> r \<and> r \<le> r2 rg \<and> c1 rg \<le> c \<and> c \<le> c2 rg)" for nm r c
  proof (rule out)
    show "\<not> (nm = sheet rg \<and> (r, c) \<in> footprint (r1 rg) (c1 rg) 0 vals)"
    proof
      assume a: "nm = sheet rg \<and> (r, c) \<in> footprint (r1 rg) (c1 rg) 0 vals"
      then obtain i j where ij: "r = r1 rg + i" "c = c1 rg + j" "i < length vals" "j < length (vals ! i)"
        by (auto simp: footprint_def)
      have "vals ! i \<in> set vals" using ij(3) by simp
      with fits have "c1 rg + length (vals ! i) \<le> c2 rg + 1" by blast
      with ij fits a nin show False by auto
    qed
  qed
qed

text \<open>
  On the 2x2 grid of formulas, \<open>setValues\<close> on the range A1:A1 with a 2x2 array of values
  overwrites B2, a cell outside the range: its formula \<open>=4\<close> is gone and its value is 4.
\<close>

theorem setValues_writes_outside_range:
  "cell_view wb_grid ''Sheet1'' 1 1 = (VNull, Some ''=4'', None, None) \<and>
   cell_view (snd (setValues rgA1 [[VNum (Fin 1), VNum (Fin 2)], [VNum (Fin 3), VNum (Fin 4)]] None wb_grid))
      ''Sheet1'' 1 1 = (VNum (Fin 4), None, None, None)"
  by code_simp

lemma wb_two_ok: "heap_ok wb_two"
  by code_simp

lemma wb_two_set: "fst (setValues rgA1 [[VNum (Fin 7)]] (Some [prov_b]) wb_two) = Inr ()"
  by code_simp

lemma wb_two_B1: "cell_view wb_two ''Sheet1'' 0 1 = (VNum (Fin 2), None, None, Some [prov_a])"
  by code_simp

text \<open>Writing A1 of the row of two values leaves B1 as it was.\<close>

theorem setValues_writes_the_values_footprint_witness:
  "heap_ok wb_two \<and>
   fst (setValues rgA1 [[VNum (Fin 7)]] (Some [prov_b]) wb_two) = Inr () \<and>
   cell_view (snd (setValues rgA1 [[VNum (Fin 7)]] (Some [prov_b]) wb_two)) ''Sheet1'' 0 1 =
     (VNum (Fin 2), None, None, Some [prov_a]) \<and>
   (\<exists>cl. cell_at (snd (setValues rgA1 [[VNum (Fin 7)]] (Some [prov_b]) wb_two)) ''Sheet1'' 0 0 = Some cl \<and>
         cell_value cl = VNum (Fin 7) \<and> formula cl = None)"
proof -
  let ?x = "setValues rgA1 [[VNum (Fin 7)]] (Some [prov_b]) wb_two"
  have x: "?x = (fst ?x, snd ?x)" by simp
  note t = setValues_writes_the_values_footprint [OF x wb_two_ok]
  have nin: "\<not> (''Sheet1'' = sheet rgA1 \<and> (0, 1) \<in> footprint (r1 rgA1) (c1 rgA1) 0 [[VNum (Fin 7)]])"
    by (simp add: footprint_def rgA1_def)
  have view: "cell_view (snd ?x) ''Sheet1'' 0 1 = cell_view wb_two ''Sheet1'' 0 1"
    using t [THEN conjunct1, rule_format, OF nin] .
  have "\<exists>cl. cell_at (snd ?x) (sheet rgA1) (r1 rgA1 + 0) (c1 rgA1 + 0) = Some cl \<and>
          cell_value cl = [[VNum (Fin 7)]] ! 0 ! 0 \<and> formula cl = None"
    by (rule t [THEN conjunct2, THEN conjunct1, rule_format, OF wb_two_set]) simp_all
  then have cellA1: "\<exists>cl. cell_at (snd ?x) ''Sheet1'' 0 0 = Some cl \<and>
          cell_value cl = VNum (Fin 7) \<and> formula cl = None"
    by (simp add: rgA1_def)
  show ?thesis
    using wb_two_ok wb_two_set wb_two_B1 view cellA1 by (simp only: simp_thms)
qed

section \<open>Provenance is appended, except by setValues\<close>

lemma kept_rows_refl: "kept_rows s s"
  by (simp add: kept_rows_def)

lemma kept_rows_trans:
  assumes "kept_rows a b" "kept_rows b c"
  shows "kept_rows a c"
  unfolding kept_rows_def
proof (intro conjI allI impI)
  fix x show "prefix (deref (snd a) x) (deref (snd c) x)"
    using assms by (auto simp: kept_rows_def intro: prefix_order.trans)
next
  fix r col cl assume "slot (fst a) r col = Some cl"
  then obtain cl' where 1: "slot (fst b) r col = Some cl'" "prefix (entries (snd a) cl) (entries (snd b) cl')"
    using assms(1) unfolding kept_rows_def by blast
  then obtain cl'' where "slot (fst c) r col = Some cl''" "prefix (entries (snd b) cl') (entries (snd c) cl'')"
    using assms(2) unfolding kept_rows_def by blast
  with 1 show "\<exists>cl'. slot (fst c) r col = Some cl' \<and> prefix (entries (snd a) cl) (entries (snd c) cl')"
    by (auto intro: prefix_order.trans)
qed

lemma provenance_kept_refl: "provenance_kept wb wb"
  by (simp add: provenance_kept_def)

lemma provenance_kept_trans:
  assumes "provenance_kept a b" "provenance_kept b c"
  shows "provenance_kept a c"
  unfolding provenance_kept_def
proof (intro conjI allI impI)
  fix x show "prefix (deref (store a) x) (deref (store c) x)"
    using assms by (auto simp: provenance_kept_def intro: prefix_order.trans)
next
  fix nm r col cl assume "cell_at a nm r col = Some cl"
  then obtain cl' where 1: "cell_at b nm r col = Some cl'" "prefix (entries (store a) cl) (entries (store b) cl')"
    using assms(1) unfolding provenance_kept_def by blast
  then obtain cl'' where "cell_at c nm r col = Some cl''" "prefix (entries (store b) cl') (entries (store c) cl'')"
    using assms(2) unfolding provenance_kept_def by blast
  with 1 show "\<exists>cl'. cell_at c nm r col = Some cl' \<and> prefix (entries (store a) cl) (entries (store c) cl')"
    by (auto intro: prefix_order.trans)
qed

lemma keepingD: "keeping m \<Longrightarrow> m wb = (res, wb') \<Longrightarrow> provenance_kept wb wb'"
  unfolding keeping_def by blast

lemma keeping_andThen:
  assumes "keeping m" "\<And>x. keeping (f x)"
  shows "keeping (andThen m f)"
  unfolding keeping_def
proof (intro allI impI)
  fix wb res wb'
  assume run: "andThen m f wb = (res, wb')"
  obtain r1 wb1 where m: "m wb = (r1, wb1)" by (cases "m wb") auto
  have k1: "provenance_kept wb wb1" by (rule keepingD [OF assms(1) m])
  show "provenance_kept wb wb'"
  proof (cases r1)
    case (Inl e)
    with run m k1 show ?thesis by (simp add: andThen_def)
  next
    case (Inr x)
    with run m have "f x wb1 = (res, wb')" by (simp add: andThen_def)
    from keepingD [OF assms(2) this] k1 show ?thesis by (blast intro: provenance_kept_trans)
  qed
qed

lemma keeping_getSheet: "keeping (getSheet k)"
  by (auto simp: keeping_def getSheet_def provenance_kept_refl split: option.splits)

lemma keeping_appendEvent: "keeping (appendEvent opn iv summ)"
  by (auto simp: keeping_def appendEvent_def provenance_kept_def cell_at_def)

lemma grown_kept:
  assumes "grown wb wb'"
  shows "provenance_kept wb wb'"
proof -
  have st: "store wb' = store wb" using assms by (simp add: grown_def)
  show ?thesis
    unfolding provenance_kept_def st
    using grown_cell_at [OF assms] by auto
qed

lemma keeping_ensureSize: "keeping (ensureSize k n cols)"
  by (auto simp: keeping_def dest: ensureSize_grown grown_kept)

lemma entries_mono: "(\<forall>a. prefix (deref h a) (deref h' a)) \<Longrightarrow> prefix (entries h cl) (entries h' cl)"
  by (auto simp: entries_def split: option.splits)

lemma keeping_on_sheet:
  assumes "\<And>s res s'. f s = (res, s') \<Longrightarrow> kept_rows s s'"
  shows "keeping (on_sheet k f)"
  unfolding keeping_def
proof (intro allI impI)
  fix wb res wb'
  assume "on_sheet k f wb = (res, wb')"
  from on_sheet_result [OF this] show "provenance_kept wb wb'"
  proof (elim disjE conjE exE)
    assume "wb' = wb"
    then show ?thesis by (simp add: provenance_kept_refl)
  next
    fix s rws' h'
    assume s: "map_of (sheets wb) k = Some s" and f: "f (rows s, store wb) = (res, rws', h')"
      and wb': "wb' = set_rows k rws' (wb\<lparr>store := h'\<rparr>)"
    have kr: "kept_rows (rows s, store wb) (rws', h')" by (rule assms [OF f])
    then have hp: "\<forall>a. prefix (deref (store wb) a) (deref h' a)" by (simp add: kept_rows_def)
    show ?thesis
      unfolding provenance_kept_def wb' store_set_rows cell_at_set_rows [OF s]
    proof (intro conjI allI impI)
      fix a show "prefix (deref (store wb) a) (deref h' a)" using hp by simp
    next
      fix nm r c cl assume c: "cell_at wb nm r c = Some cl"
      show "\<exists>cl'. (if nm = k then slot rws' r c else cell_at wb nm r c) = Some cl' \<and>
                  prefix (entries (store wb) cl) (entries h' cl')"
      proof (cases "nm = k")
        case True
        with c s have "slot (rows s) r c = Some cl" by (simp add: cell_at_def)
        with kr True show ?thesis unfolding kept_rows_def by auto
      next
        case False
        with c entries_mono [OF hp] show ?thesis by auto
      qed
    qed
  qed
qed

lemma keeping_snapshot: "keeping (snapshot rg)"
  unfolding snapshot_def
  by (intro keeping_andThen keeping_getSheet keeping_ensureSize keeping_on_sheet)
     (auto simp: kept_rows_refl)

lemma kept_rows_heap:
  assumes "\<forall>a. prefix (deref h a) (deref h' a)"
  shows "kept_rows (rws, h) (rws, h')"
  using assms by (auto simp: kept_rows_def intro: entries_mono)

lemma kept_rows_update:
  assumes "rr < length rws" "\<forall>a. prefix (deref h a) (deref h' a)"
    and "\<And>old. slot rws rr cc = Some old \<Longrightarrow> prefix (entries h old) (entries h' new)"
  shows "kept_rows (rws, h) (rws[rr := js_set (rws ! rr) cc new], h')"
  unfolding kept_rows_def
proof (intro conjI allI impI)
  fix a show "prefix (deref (snd (rws, h)) a) (deref (snd (rws[rr := js_set (rws ! rr) cc new], h')) a)"
    using assms(2) by simp
next
  fix r c cl assume cl: "slot (fst (rws, h)) r c = Some cl"
  show "\<exists>cl'. slot (fst (rws[rr := js_set (rws ! rr) cc new], h')) r c = Some cl' \<and>
          prefix (entries (snd (rws, h)) cl) (entries (snd (rws[rr := js_set (rws ! rr) cc new], h')) cl')"
  proof (cases "r = rr \<and> c = cc")
    case True
    with cl assms(1,3) show ?thesis by (simp add: slot_update)
  next
    case False
    with cl assms(1) entries_mono [OF assms(2)] show ?thesis by (auto simp: slot_update)
  qed
qed

lemma prefix_deref_push: "prefix (deref h x) (deref (push_all a ps h) x)"
  by (auto simp: deref_def push_all_def nth_list_update)

lemma prefix_deref_alloc: "prefix (deref h x) (deref (h @ [ps]) x)"
  by (auto simp: deref_def nth_append)

lemma link_cell_kept: "link_cell prov r c s = (res, s') \<Longrightarrow> kept_rows s s'"
proof -
  assume run: "link_cell prov r c s = (res, s')"
  obtain rws h where s: "s = (rws, h)" by (cases s)
  show ?thesis
  proof (cases "r < length rws")
    case False
    with run s show ?thesis by (auto simp: link_cell_def kept_rows_refl)
  next
    case r: True
    show ?thesis
    proof (cases "js_at (rws ! r) c")
      case None
      with run s r show ?thesis by (auto simp: link_cell_def kept_rows_refl)
    next
      case (Some cl)
      show ?thesis
      proof (cases "provenance cl")
        case (Some a)
        with run s r \<open>js_at (rws ! r) c = Some cl\<close> have "s' = (rws, push_all a prov h)"
          by (auto simp: link_cell_def)
        then show ?thesis unfolding s by (auto intro!: kept_rows_heap prefix_deref_push)
      next
        case None
        let ?h1 = "h @ [[]]"
        let ?h' = "push_all (length h) prov ?h1"
        from None run s r \<open>js_at (rws ! r) c = Some cl\<close> have
          s': "s' = (rws[r := js_set (rws ! r) c (cl\<lparr>provenance := Some (length h)\<rparr>)], ?h')"
          by (auto simp: link_cell_def alloc_def)
        have hp: "\<forall>x. prefix (deref h x) (deref ?h' x)"
          using prefix_deref_alloc [of h _ "[]"] prefix_deref_push [of ?h1 _ "length h" prov]
          by (blast intro: prefix_order.trans)
        show ?thesis
          unfolding s s'
        proof (rule kept_rows_update [OF r hp])
          fix old assume "slot rws r c = Some old"
          with r \<open>js_at (rws ! r) c = Some cl\<close> have "old = cl" by (simp add: slot_def)
          with None show "prefix (entries h old) (entries ?h' (cl\<lparr>provenance := Some (length h)\<rparr>))"
            by (simp add: entries_def)
        qed
      qed
    qed
  qed
qed

lemma kept_rows_write:
  assumes "rr < length rws"
    and "provenance new = provenance (case js_at (rws ! rr) cc of None \<Rightarrow> empty_cell | Some cl \<Rightarrow> cl)"
  shows "kept_rows (rws, h) (rws[rr := js_set (rws ! rr) cc new], h)"
proof (rule kept_rows_update [OF assms(1)])
  show "\<forall>a. prefix (deref h a) (deref h a)" by simp
next
  fix old assume "slot rws rr cc = Some old"
  with assms(1) have "js_at (rws ! rr) cc = Some old" by (simp add: slot_def)
  with assms(2) show "prefix (entries h old) (entries h new)" by (simp add: entries_def)
qed

lemma write_value_None_kept: "write_value rr cc v None s = (res, s') \<Longrightarrow> kept_rows s s'"
proof -
  assume run: "write_value rr cc v None s = (res, s')"
  obtain rws h where s: "s = (rws, h)" by (cases s)
  show ?thesis
  proof (cases "rr < length rws")
    case False
    with run s show ?thesis by (auto simp: write_value_def kept_rows_refl)
  next
    case True
    with run s show ?thesis
      by (auto simp: write_value_def Let_def intro!: kept_rows_write)
  qed
qed

lemma write_formula_kept: "write_formula rr cc f s = (res, s') \<Longrightarrow> kept_rows s s'"
proof -
  assume run: "write_formula rr cc f s = (res, s')"
  obtain rws h where s: "s = (rws, h)" by (cases s)
  show ?thesis
  proof (cases "rr < length rws")
    case False
    with run s show ?thesis by (auto simp: write_formula_def kept_rows_refl)
  next
    case True
    with run s show ?thesis
      by (auto simp: write_formula_def Let_def intro!: kept_rows_write)
  qed
qed

lemma write_format_kept: "write_format fmt r c s = (res, s') \<Longrightarrow> kept_rows s s'"
proof -
  assume run: "write_format fmt r c s = (res, s')"
  obtain rws h where s: "s = (rws, h)" by (cases s)
  show ?thesis
  proof (cases "r < length rws")
    case False
    with run s show ?thesis by (auto simp: write_format_def kept_rows_refl)
  next
    case True
    with run s show ?thesis
      by (auto simp: write_format_def Let_def intro!: kept_rows_write)
  qed
qed

lemma for_each_kept:
  assumes "\<And>x s res s'. f x s = (res, s') \<Longrightarrow> kept_rows s s'"
  shows "for_each f xs s = (res, s') \<Longrightarrow> kept_rows s s'"
  by (rule for_each_rel [where R = kept_rows, OF kept_rows_refl kept_rows_trans assms])

lemma keeping_linkProvenance: "keeping (linkProvenance rg prov)"
  unfolding linkProvenance_def
  by (intro keeping_andThen keeping_snapshot keeping_getSheet keeping_appendEvent keeping_on_sheet)
     (auto elim!: for_each_kept [rotated] dest: link_cell_kept)

lemma keeping_setValues_None: "keeping (setValues rg vals None)"
  unfolding setValues_def
  by (intro keeping_andThen keeping_snapshot keeping_getSheet keeping_ensureSize keeping_appendEvent
        keeping_on_sheet)
     (auto elim!: for_each_kept [rotated] dest: write_value_None_kept)

lemma keeping_setFormulas: "keeping (setFormulas rg fs)"
  unfolding setFormulas_def
  by (intro keeping_andThen keeping_snapshot keeping_getSheet keeping_ensureSize keeping_appendEvent
        keeping_on_sheet)
     (auto elim!: for_each_kept [rotated] dest: write_formula_kept)

lemma keeping_formatRange: "keeping (formatRange rg fmt)"
  unfolding formatRange_def
  by (intro keeping_andThen keeping_snapshot keeping_getSheet keeping_ensureSize keeping_appendEvent
        keeping_on_sheet)
     (auto elim!: for_each_kept [rotated] dest: write_format_kept)

lemma stamped_entries: "stamped (Some ps) h cl \<Longrightarrow> entries h cl = ps"
  by (auto simp: stamped_def entries_def deref_def)

text \<open>
  Claim C5, as amended. \<open>linkProvenance\<close>, \<open>setValues\<close> without a provenance
  argument, \<open>setFormulas\<close> and \<open>formatRange\<close> only append: every cell that existed still
  exists, and the provenance records it had are a prefix of the records it has afterwards.
  \<open>setValues\<close> with a provenance argument does not append: each cell it writes has
  exactly the records of the argument afterwards.
\<close>

theorem provenance_appended_unless_setValues_replaces:
  "(linkProvenance rg prov wb = (res, wb') \<longrightarrow> provenance_kept wb wb') \<and>
   (setValues rg vals None wb = (res, wb') \<longrightarrow> provenance_kept wb wb') \<and>
   (setFormulas rg fs wb = (res, wb') \<longrightarrow> provenance_kept wb wb') \<and>
   (formatRange rg fmt wb = (res, wb') \<longrightarrow> provenance_kept wb wb') \<and>
   (setValues rg vals (Some ps) wb = (Inr (), wb') \<longrightarrow>
      (\<forall>i j. i < length vals \<and> j < length (vals ! i) \<longrightarrow>
         (\<exists>cl. cell_at wb' (sheet rg) (r1 rg + i) (c1 rg + j) = Some cl \<and>
               entries (store wb') cl = ps)))"
proof (intro conjI impI allI)
  assume "linkProvenance rg prov wb = (res, wb')"
  then show "provenance_kept wb wb'" using keeping_linkProvenance by (rule keepingD [rotated])
next
  assume "setValues rg vals None wb = (res, wb')"
  then show "provenance_kept wb wb'" using keeping_setValues_None by (rule keepingD [rotated])
next
  assume "setFormulas rg fs wb = (res, wb')"
  then show "provenance_kept wb wb'" using keeping_setFormulas by (rule keepingD [rotated])
next
  assume "formatRange rg fmt wb = (res, wb')"
  then show "provenance_kept wb wb'" using keeping_formatRange by (rule keepingD [rotated])
next
  fix i j
  assume run: "setValues rg vals (Some ps) wb = (Inr (), wb')"
    and ij: "i < length vals \<and> j < length (vals ! i)"
  from setValues_written [OF run] ij
  obtain cl where "cell_at wb' (sheet rg) (r1 rg + i) (c1 rg + j) = Some cl"
    "stamped (Some ps) (store wb') cl" by blast
  then show "\<exists>cl. cell_at wb' (sheet rg) (r1 rg + i) (c1 rg + j) = Some cl \<and>
               entries (store wb') cl = ps"
    by (auto dest: stamped_entries)
qed

text \<open>
  A1 carries the record of the 10-K; after \<open>setValues\<close> with the record of the 10-Q as
  provenance argument it carries the record of the 10-Q alone.
\<close>

theorem setValues_replaces_provenance:
  "prov_A1 wb_prov0 = Some (Some [prov_a]) \<and>
   fst (setValues rgA1 [[VNum (Fin 2)]] (Some [prov_b]) wb_prov0) = Inr () \<and>
   prov_A1 (snd (setValues rgA1 [[VNum (Fin 2)]] (Some [prov_b]) wb_prov0)) = Some (Some [prov_b])"
  by code_simp

lemma wb_prov0_link: "fst (linkProvenance rgA1 [prov_b] wb_prov0) = Inr ()"
  by code_simp

lemma wb_prov0_value: "fst (setValues rgA1 [[VNum (Fin 2)]] None wb_prov0) = Inr ()"
  by code_simp

lemma wb_prov0_formula: "fst (setFormulas rgA1 [[Some ''=1+1'']] wb_prov0) = Inr ()"
  by code_simp

lemma wb_prov0_format: "fst (formatRange rgA1 (Some ''0.00'') wb_prov0) = Inr ()"
  by code_simp

lemma wb_prov0_replace: "fst (setValues rgA1 [[VNum (Fin 2)]] (Some [prov_b]) wb_prov0) = Inr ()"
  by code_simp

text \<open>The four appending operations and the replacing one on the workbook of the 10-K.\<close>

theorem provenance_appended_unless_setValues_replaces_witness:
  "linkProvenance rgA1 [prov_b] wb_prov0 = (Inr (), wb_prov1) \<and>
   provenance_kept wb_prov0 wb_prov1 \<and>
   provenance_kept wb_prov0 (snd (setValues rgA1 [[VNum (Fin 2)]] None wb_prov0)) \<and>
   provenance_kept wb_prov0 (snd (setFormulas rgA1 [[Some ''=1+1'']] wb_prov0)) \<and>
   provenance_kept wb_prov0 (snd (formatRange rgA1 (Some ''0.00'') wb_prov0)) \<and>
   (\<exists>cl. cell_at (snd (setValues rgA1 [[VNum (Fin 2)]] (Some [prov_b]) wb_prov0)) ''Sheet1'' 0 0 = Some cl \<and>
         entries (store (snd (setValues rgA1 [[VNum (Fin 2)]] (Some [prov_b]) wb_prov0))) cl = [prov_b])"
proof -
  have l: "linkProvenance rgA1 [prov_b] wb_prov0 = (Inr (), wb_prov1)"
    using wb_prov0_link by (simp add: wb_prov1_def prod_eq_iff)
  have v: "setValues rgA1 [[VNum (Fin 2)]] None wb_prov0
             = (Inr (), snd (setValues rgA1 [[VNum (Fin 2)]] None wb_prov0))"
    using wb_prov0_value by (simp add: prod_eq_iff)
  have f: "setFormulas rgA1 [[Some ''=1+1'']] wb_prov0
             = (Inr (), snd (setFormulas rgA1 [[Some ''=1+1'']] wb_prov0))"
    using wb_prov0_formula by (simp add: prod_eq_iff)
  have m: "formatRange rgA1 (Some ''0.00'') wb_prov0
             = (Inr (), snd (formatRange rgA1 (Some ''0.00'') wb_prov0))"
    using wb_prov0_format by (simp add: prod_eq_iff)
  have p: "setValues rgA1 [[VNum (Fin 2)]] (Some [prov_b]) wb_prov0
             = (Inr (), snd (setValues rgA1 [[VNum (Fin 2)]] (Some [prov_b]) wb_prov0))"
    using wb_prov0_replace by (simp add: prod_eq_iff)
  note t = provenance_appended_unless_setValues_replaces
  have a1: "provenance_kept wb_prov0 wb_prov1"
    using t [where rg = rgA1 and prov = "[prov_b]" and wb = wb_prov0 and res = "Inr ()"
               and wb' = wb_prov1, THEN conjunct1] l by blast
  have a2: "provenance_kept wb_prov0 (snd (setValues rgA1 [[VNum (Fin 2)]] None wb_prov0))"
    using t [where rg = rgA1 and vals = "[[VNum (Fin 2)]]" and wb = wb_prov0 and res = "Inr ()",
             THEN conjunct2, THEN conjunct1] v by blast
  have a3: "provenance_kept wb_prov0 (snd (setFormulas rgA1 [[Some ''=1+1'']] wb_prov0))"
    using t [where rg = rgA1 and fs = "[[Some ''=1+1'']]" and wb = wb_prov0 and res = "Inr ()",
             THEN conjunct2, THEN conjunct2, THEN conjunct1] f by blast
  have a4: "provenance_kept wb_prov0 (snd (formatRange rgA1 (Some ''0.00'') wb_prov0))"
    using t [where rg = rgA1 and fmt = "Some ''0.00''" and wb = wb_prov0 and res = "Inr ()",
             THEN conjunct2, THEN conjunct2, THEN conjunct2, THEN conjunct1] m by blast
  have a5: "\<exists>cl. cell_at (snd (setValues rgA1 [[VNum (Fin 2)]] (Some [prov_b]) wb_prov0))
                 (sheet rgA1) (r1 rgA1 + 0) (c1 rgA1 + 0) = Some cl \<and>
         entries (store (snd (setValues rgA1 [[VNum (Fin 2)]] (Some [prov_b]) wb_prov0))) cl = [prov_b]"
    using t [where rg = rgA1 and wb = wb_prov0 and vals = "[[VNum (Fin 2)]]" and ps = "[prov_b]"
               and wb' = "snd (setValues rgA1 [[VNum (Fin 2)]] (Some [prov_b]) wb_prov0)",
             THEN conjunct2, THEN conjunct2, THEN conjunct2, THEN conjunct2,
             rule_format, OF p, of 0 0]
    by simp
  from a5 have a6: "\<exists>cl. cell_at (snd (setValues rgA1 [[VNum (Fin 2)]] (Some [prov_b]) wb_prov0))
                 ''Sheet1'' 0 0 = Some cl \<and>
         entries (store (snd (setValues rgA1 [[VNum (Fin 2)]] (Some [prov_b]) wb_prov0))) cl = [prov_b]"
    by (simp add: rgA1_def)
  from l a1 a2 a3 a4 a6 show ?thesis by blast
qed

end
